theory Spec2Isabelle
  imports Main "HOL-Library.Word"
begin

section \<open>The prefetcher of libstagefright (media/libstagefright/Prefetcher.cpp)\<close>

text \<open>
  The file holds two classes: \<open>PrefetchedSource\<close>, a cache in front of one
  \<open>MediaSource\<close>, and \<open>Prefetcher\<close>, whose single worker thread fills the caches.
  Every method is embedded as a function on an explicit state. A method holds the lock
  of its object for its whole body, so a method is one step; the places where a method
  waits on a condition, and so gives up the lock, are explicit. A failed \<open>CHECK\<close> aborts
  the process; it is the \<open>Inl\<close> branch of a sum. \<open>int64_t\<close> is a 64-bit word, read as a signed
  number by \<open>sint\<close> wherever the code compares; the subtraction of two time stamps wraps.
\<close>

subsection \<open>Types the file takes from its headers\<close>

type_synonym int64_t = "64 word"

text \<open>
  \<open>status_t\<close>: the file names \<open>OK\<close> and \<open>ERROR_END_OF_STREAM\<close>; every other code
  an underlying source may report is an \<open>ERROR_OTHER\<close>.
\<close>

datatype status_t = OK | ERROR_END_OF_STREAM | ERROR_OTHER int

datatype fault = CHECK_failed string | NULL_dereference

text \<open>
  \<open>MetaData\<close>, reduced to its 64-bit entries: \<open>findInt64\<close> reports whether the key is
  present and \<open>setInt64\<close> stores an entry.
\<close>

type_synonym MetaData = "(string \<times> int64_t) list"

definition kKeyTime :: string where
  "kKeyTime = ''time''"

definition findInt64 :: "MetaData \<Rightarrow> string \<Rightarrow> int64_t option" where
  "findInt64 m k = map_of m k"

definition setInt64 :: "MetaData \<Rightarrow> string \<Rightarrow> int64_t \<Rightarrow> MetaData" where
  "setInt64 m k v = (k, v) # filter (\<lambda>e. fst e \<noteq> k) m"

text \<open>
  \<open>MediaBuffer\<close>: payload bytes, the byte range in use and the meta data.
\<close>

record MediaBuffer =
  data :: "8 word list"
  range_offset :: nat
  range_length :: nat
  meta_data :: MetaData

text \<open>\<open>new MediaBuffer(n)\<close>: a fresh buffer of \<open>n\<close> bytes with empty meta data.\<close>

definition MediaBuffer_new :: "nat \<Rightarrow> MediaBuffer" where
  "MediaBuffer_new n =
     \<lparr>data = replicate n 0, range_offset = 0, range_length = n, meta_data = []\<rparr>"

text \<open>
  \<open>ReadOptions\<close> carries at most a seek target: \<open>setSeekTo\<close> stores it, \<open>getSeekTo\<close>
  reports whether one is there.
\<close>

type_synonym ReadOptions = "int64_t option"

definition setSeekTo :: "ReadOptions \<Rightarrow> int64_t \<Rightarrow> ReadOptions" where
  "setSeekTo options t = Some t"

definition getSeekTo :: "ReadOptions \<Rightarrow> int64_t option" where
  "getSeekTo options = options"

text \<open>
  The wrapped \<open>MediaSource\<close> is an object outside this file. It is taken as a
  parameter: its answer to a call is any function of the calls it has received so far, and
  the calls it receives are recorded in order.
\<close>

datatype call = Call_start "MetaData option" | Call_stop | Call_read ReadOptions

record MediaSource =
  respond :: "call list \<Rightarrow> call \<Rightarrow> status_t \<times> MediaBuffer option"
  calls :: "call list"

definition invoke :: "MediaSource \<Rightarrow> call \<Rightarrow> (status_t \<times> MediaBuffer option) \<times> MediaSource" where
  "invoke src c = (respond src (calls src) c, src\<lparr>calls := calls src @ [c]\<rparr>)"

subsection \<open>PrefetchedSource\<close>

text \<open>
  The members of the class. \<open>mCondition\<close> counts the calls of \<open>mCondition.signal()\<close>,
  and \<open>released\<close> lists the buffers on which \<open>release()\<close> has been called, in order.
\<close>

record PrefetchedSource =
  mSource :: MediaSource
  mIndex :: nat
  mStarted :: bool
  mReachedEOS :: bool
  mSeekTimeUs :: int64_t
  mCacheDurationUs :: int64_t
  mPrefetcherStopped :: bool
  mCachedBuffers :: "MediaBuffer list"
  mCondition :: nat
  released :: "MediaBuffer list"

definition PrefetchedSource_new :: "nat \<Rightarrow> MediaSource \<Rightarrow> PrefetchedSource" where
  "PrefetchedSource_new index source =
     \<lparr>mSource = source, mIndex = index, mStarted = False, mReachedEOS = False,
      mSeekTimeUs = 0, mCacheDurationUs = 0, mPrefetcherStopped = False,
      mCachedBuffers = [], mCondition = 0, released = []\<rparr>"

definition updateCacheDuration_l :: "PrefetchedSource \<Rightarrow> fault + PrefetchedSource" where
  "updateCacheDuration_l s =
     (if length (mCachedBuffers s) < 2 then Inr (s\<lparr>mCacheDurationUs := 0\<rparr>)
      else
        case findInt64 (meta_data (hd (mCachedBuffers s))) kKeyTime of
          None \<Rightarrow> Inl (CHECK_failed ''first findInt64(kKeyTime)'')
        | Some firstTimeUs \<Rightarrow>
            (case findInt64 (meta_data (last (mCachedBuffers s))) kKeyTime of
               None \<Rightarrow> Inl (CHECK_failed ''last findInt64(kKeyTime)'')
             | Some lastTimeUs \<Rightarrow> Inr (s\<lparr>mCacheDurationUs := lastTimeUs - firstTimeUs\<rparr>)))"

text \<open>
  The loop of \<open>clearCache_l\<close>: release the front buffer and erase it, until the list is
  empty. It returns the remaining list and the extended record of releases.
\<close>

fun clearCache_loop :: "MediaBuffer list \<Rightarrow> MediaBuffer list \<Rightarrow> MediaBuffer list \<times> MediaBuffer list" where
  "clearCache_loop [] rel = ([], rel)"
| "clearCache_loop (b # bs) rel = clearCache_loop bs (rel @ [b])"

definition clearCache_l :: "PrefetchedSource \<Rightarrow> fault + PrefetchedSource" where
  "clearCache_l s =
     (case clearCache_loop (mCachedBuffers s) (released s) of
        (bufs, rel) \<Rightarrow> updateCacheDuration_l (s\<lparr>mCachedBuffers := bufs, released := rel\<rparr>))"

definition start :: "PrefetchedSource \<Rightarrow> MetaData option \<Rightarrow> fault + (status_t \<times> PrefetchedSource)" where
  "start s params =
     (if mStarted s then Inl (CHECK_failed ''!mStarted'')
      else
        case invoke (mSource s) (Call_start params) of
          ((err, _), src) \<Rightarrow>
            if err \<noteq> OK then Inr (err, s\<lparr>mSource := src\<rparr>)
            else Inr (OK, s\<lparr>mSource := src, mStarted := True\<rparr>))"

definition stop :: "PrefetchedSource \<Rightarrow> fault + (status_t \<times> PrefetchedSource)" where
  "stop s =
     (if \<not> mStarted s then Inl (CHECK_failed ''mStarted'')
      else
        case clearCache_l s of
          Inl f \<Rightarrow> Inl f
        | Inr s1 \<Rightarrow>
            (case invoke (mSource s1) Call_stop of
               ((err, _), src) \<Rightarrow> Inr (err, s1\<lparr>mSource := src, mStarted := False\<rparr>)))"

text \<open>
  \<open>read\<close> blocks in \<open>mCondition.wait\<close> while its loop condition holds. The call is
  therefore embedded in three parts: \<open>read_seek\<close> is the code before the loop,
  \<open>read_wait\<close> is the loop condition, and \<open>read_wakeup\<close> is what the caller does each
  time it holds the lock again: it goes back to waiting, with the state untouched, or it
  leaves the loop and runs the rest of the function. \<open>read\<close> is the call up to its first
  wait or its return.
\<close>

datatype read_result = Waiting | Returned status_t "MediaBuffer option"

definition read_seek :: "PrefetchedSource \<Rightarrow> ReadOptions option \<Rightarrow> fault + PrefetchedSource" where
  "read_seek s options =
     (if \<not> mStarted s then Inl (CHECK_failed ''mStarted'')
      else
        case options of
          None \<Rightarrow> Inr s
        | Some opts \<Rightarrow>
            (case getSeekTo opts of
               None \<Rightarrow> Inr s
             | Some seekTimeUs \<Rightarrow>
                 if \<not> (0 \<le> sint seekTimeUs) then Inl (CHECK_failed ''seekTimeUs >= 0'')
                 else
                   (case clearCache_l s of
                      Inl f \<Rightarrow> Inl f
                    | Inr s1 \<Rightarrow> Inr (s1\<lparr>mReachedEOS := False, mSeekTimeUs := seekTimeUs\<rparr>))))"

definition read_wait :: "PrefetchedSource \<Rightarrow> bool" where
  "read_wait s = (\<not> mPrefetcherStopped s \<and> \<not> mReachedEOS s \<and> mCachedBuffers s = [])"

definition read_wakeup :: "PrefetchedSource \<Rightarrow> fault + (read_result \<times> PrefetchedSource)" where
  "read_wakeup s =
     (if read_wait s then Inr (Waiting, s)
      else
        case mCachedBuffers s of
          [] \<Rightarrow> Inr (Returned ERROR_END_OF_STREAM None, s)
        | b # bs \<Rightarrow>
            (case updateCacheDuration_l (s\<lparr>mCachedBuffers := bs\<rparr>) of
               Inl f \<Rightarrow> Inl f
             | Inr s1 \<Rightarrow> Inr (Returned OK (Some b), s1)))"

definition read :: "PrefetchedSource \<Rightarrow> ReadOptions option \<Rightarrow> fault + (read_result \<times> PrefetchedSource)" where
  "read s options =
     (case read_seek s options of
        Inl f \<Rightarrow> Inl f
      | Inr s1 \<Rightarrow> read_wakeup s1)"

definition getCacheDurationUs :: "PrefetchedSource \<Rightarrow> bool \<times> int64_t" where
  "getCacheDurationUs s =
     (if \<not> mStarted s \<or> mReachedEOS s then (False, 0) else (True, mCacheDurationUs s))"

text \<open>
  The cache-owned copy that \<open>cacheMore\<close> builds: the bytes of the range in use, and
  the time stamp when the source's buffer has one.
\<close>

definition copy_of :: "MediaBuffer \<Rightarrow> MediaBuffer" where
  "copy_of buffer =
     (let copy = (MediaBuffer_new (range_length buffer))
                   \<lparr>data := take (range_length buffer) (drop (range_offset buffer) (data buffer))\<rparr>
      in case findInt64 (meta_data buffer) kKeyTime of
           Some timeUs \<Rightarrow> copy\<lparr>meta_data := setInt64 (meta_data copy) kKeyTime timeUs\<rparr>
         | None \<Rightarrow> copy)"

definition cacheMore :: "PrefetchedSource \<Rightarrow> fault + PrefetchedSource" where
  "cacheMore s =
     (if \<not> mStarted s then Inr s
      else
        case (if 0 \<le> sint (mSeekTimeUs s)
              then (setSeekTo None (mSeekTimeUs s), s\<lparr>mSeekTimeUs := - 1\<rparr>)
              else (None, s)) of
          (options, s1) \<Rightarrow>
            (case invoke (mSource s1) (Call_read options) of
               ((err, buffer), src) \<Rightarrow>
                 if err \<noteq> OK
                 then Inr (s1\<lparr>mSource := src, mReachedEOS := True,
                              mCondition := Suc (mCondition s1)\<rparr>)
                 else
                   (case buffer of
                      None \<Rightarrow> Inl (CHECK_failed ''buffer != NULL'')
                    | Some buf \<Rightarrow>
                        (case updateCacheDuration_l
                                (s1\<lparr>mSource := src,
                                    released := released s1 @ [buf],
                                    mCachedBuffers := mCachedBuffers s1 @ [copy_of buf]\<rparr>) of
                           Inl f \<Rightarrow> Inl f
                         | Inr s2 \<Rightarrow> Inr (s2\<lparr>mCondition := Suc (mCondition s2)\<rparr>)))))"

definition onPrefetcherStopped :: "PrefetchedSource \<Rightarrow> PrefetchedSource" where
  "onPrefetcherStopped s = s\<lparr>mPrefetcherStopped := True, mCondition := Suc (mCondition s)\<rparr>"

subsection \<open>Prefetcher\<close>

text \<open>
  \<open>mSources\<close> is a vector of weak pointers: an entry is \<open>None\<close> when \<open>promote()\<close>
  yields \<open>NULL\<close>, and otherwise the cache it resolves to. \<open>mThreadCondition\<close> counts
  the signals on the prefetcher's own condition variable.
\<close>

record Prefetcher =
  mDone :: bool
  mThreadExited :: bool
  mSources :: "PrefetchedSource option list"
  mThreadCondition :: nat

definition kMaxCacheDurationUs :: int64_t where
  "kMaxCacheDurationUs = 10000000"

definition addSource :: "Prefetcher \<Rightarrow> MediaSource \<Rightarrow> PrefetchedSource \<times> Prefetcher" where
  "addSource p source =
     (let psource = PrefetchedSource_new (length (mSources p)) source
      in (psource, p\<lparr>mSources := mSources p @ [Some psource]\<rparr>))"

text \<open>
  The scan of \<open>threadFunc\<close>: \<open>i\<close> is the loop index, the list holds the entries from
  \<open>i\<close> on, and the triple is \<open>(minCacheDurationUs, minIndex, minSource)\<close>.
\<close>

fun threadFunc_scan ::
  "nat \<Rightarrow> PrefetchedSource option list \<Rightarrow> int64_t \<times> int \<times> PrefetchedSource option
     \<Rightarrow> int64_t \<times> int \<times> PrefetchedSource option" where
  "threadFunc_scan i [] acc = acc"
| "threadFunc_scan i (w # ws) (minCacheDurationUs, minIndex, minSource) =
     (case w of
        None \<Rightarrow> threadFunc_scan (Suc i) ws (minCacheDurationUs, minIndex, minSource)
      | Some source \<Rightarrow>
          (case getCacheDurationUs source of
             (caching, cacheDurationUs) \<Rightarrow>
               if \<not> caching
               then threadFunc_scan (Suc i) ws (minCacheDurationUs, minIndex, minSource)
               else if sint kMaxCacheDurationUs \<le> sint cacheDurationUs
               then threadFunc_scan (Suc i) ws (minCacheDurationUs, minIndex, minSource)
               else if minIndex < 0 \<or> sint cacheDurationUs < sint minCacheDurationUs
               then threadFunc_scan (Suc i) ws (cacheDurationUs, int i, Some source)
               else threadFunc_scan (Suc i) ws (minCacheDurationUs, minIndex, minSource)))"

text \<open>
  One cycle of the worker after its timed wait: the scan under the lock, then
  \<open>cacheMore\<close> on the selected cache. With no selection the cycle changes nothing.
  A cache is an object that the registry shares with its consumers; the model keeps its
  state in the entry of the registry, so what \<open>cacheMore\<close> leaves is stored at
  \<open>minIndex\<close>.
\<close>

definition threadFunc_cycle :: "Prefetcher \<Rightarrow> fault + Prefetcher" where
  "threadFunc_cycle p =
     (case threadFunc_scan 0 (mSources p) (- 1, - 1, None) of
        (minCacheDurationUs, minIndex, minSource) \<Rightarrow>
          if minIndex < 0 then Inr p
          else
            (case minSource of
               None \<Rightarrow> Inl NULL_dereference
             | Some source \<Rightarrow>
                 (case cacheMore source of
                    Inl f \<Rightarrow> Inl f
                  | Inr source' \<Rightarrow>
                      Inr (p\<lparr>mSources := (mSources p)[nat minIndex := Some source']\<rparr>))))"

text \<open>The code after the loop: every cache that still resolves is told, then the exit is announced.\<close>

definition threadFunc_exit :: "Prefetcher \<Rightarrow> Prefetcher" where
  "threadFunc_exit p =
     p\<lparr>mSources := map (map_option onPrefetcherStopped) (mSources p),
       mThreadExited := True,
       mThreadCondition := Suc (mThreadCondition p)\<rparr>"

text \<open>
  The worker thread. Each pass tests \<open>mDone\<close>, then waits on the condition, which gives
  up the lock: the first element of the list is what the other threads do to the shared
  state during that wait. The list bounds the number of passes; \<open>None\<close> says that the
  worker is still in its loop when the list is used up.
\<close>

fun threadFunc :: "(Prefetcher \<Rightarrow> Prefetcher) list \<Rightarrow> Prefetcher \<Rightarrow> fault + Prefetcher option" where
  "threadFunc [] p = (if mDone p then Inr (Some (threadFunc_exit p)) else Inr None)"
| "threadFunc (others # rest) p =
     (if mDone p then Inr (Some (threadFunc_exit p))
      else
        case threadFunc_cycle (others p) of
          Inl f \<Rightarrow> Inl f
        | Inr p1 \<Rightarrow> threadFunc rest p1)"

text \<open>
  \<open>stopThread\<close> follows the same scheme: each pass of its loop sets \<open>mDone\<close>,
  signals and waits, and the list holds what the other threads, the worker among them,
  do during each wait.
\<close>

fun stopThread :: "(Prefetcher \<Rightarrow> Prefetcher) list \<Rightarrow> Prefetcher \<Rightarrow> Prefetcher option" where
  "stopThread [] p = (if mThreadExited p then Some p else None)"
| "stopThread (others # rest) p =
     (if mThreadExited p then Some p
      else stopThread rest
             (others (p\<lparr>mDone := True, mThreadCondition := Suc (mThreadCondition p)\<rparr>)))"

text \<open>The scan of \<open>getCachedDurationUs\<close>, with the pair \<open>(minCacheDurationUs, minIndex)\<close>.\<close>

fun getCachedDurationUs_scan ::
  "nat \<Rightarrow> PrefetchedSource option list \<Rightarrow> int64_t \<times> int \<Rightarrow> int64_t \<times> int" where
  "getCachedDurationUs_scan i [] acc = acc"
| "getCachedDurationUs_scan i (w # ws) (minCacheDurationUs, minIndex) =
     (case w of
        None \<Rightarrow> getCachedDurationUs_scan (Suc i) ws (minCacheDurationUs, minIndex)
      | Some source \<Rightarrow>
          (case getCacheDurationUs source of
             (caching, cacheDurationUs) \<Rightarrow>
               if \<not> caching
               then getCachedDurationUs_scan (Suc i) ws (minCacheDurationUs, minIndex)
               else if sint kMaxCacheDurationUs \<le> sint cacheDurationUs
               then getCachedDurationUs_scan (Suc i) ws (minCacheDurationUs, minIndex)
               else if minIndex < 0 \<or> sint cacheDurationUs < sint minCacheDurationUs
               then getCachedDurationUs_scan (Suc i) ws (cacheDurationUs, int i)
               else getCachedDurationUs_scan (Suc i) ws (minCacheDurationUs, minIndex)))"

text \<open>
  \<open>getCachedDurationUs\<close> returns the duration and the value it stores through
  \<open>noMoreData\<close>.
\<close>

definition getCachedDurationUs :: "Prefetcher \<Rightarrow> int64_t \<times> bool" where
  "getCachedDurationUs p =
     (case getCachedDurationUs_scan 0 (mSources p) (- 1, - 1) of
        (minCacheDurationUs, minIndex) \<Rightarrow>
          (if sint minCacheDurationUs < 0 then 0 else minCacheDurationUs, sint minCacheDurationUs < 0))"

text \<open>
  \<open>prepare\<close> polls until its loop condition fails. The list holds the states of the
  prefetcher at the successive polls; \<open>None\<close> says that the call is still polling when
  the list is used up.
\<close>

fun prepare :: "Prefetcher list \<Rightarrow> status_t option" where
  "prepare [] = None"
| "prepare (p # ps) =
     (case getCachedDurationUs p of
        (duration, noMoreData) \<Rightarrow>
          if \<not> noMoreData \<and> sint duration < 2000000 then prepare ps else Some OK)"

text \<open>
  The constructor: no source is registered. (Starting the worker thread is outside the model.)
\<close>

definition Prefetcher_new :: Prefetcher where
  "Prefetcher_new = \<lparr>mDone = False, mThreadExited = False, mSources = [], mThreadCondition = 0\<rparr>"

subsection \<open>Vocabulary of the properties\<close>

text \<open>The presentation time stamp of a buffer, when it has one.\<close>

definition timestamp :: "MediaBuffer \<Rightarrow> int64_t option" where
  "timestamp b = findInt64 (meta_data b) kKeyTime"

text \<open>
  The stored duration is the span of the queue: the newest time stamp minus the oldest
  when two or more buffers are queued, and 0 otherwise.
\<close>

definition duration_ok :: "PrefetchedSource \<Rightarrow> bool" where
  "duration_ok s =
     (if length (mCachedBuffers s) < 2 then mCacheDurationUs s = 0
      else timestamp (hd (mCachedBuffers s)) \<noteq> None \<and>
           timestamp (last (mCachedBuffers s)) \<noteq> None \<and>
           mCacheDurationUs s =
             the (timestamp (last (mCachedBuffers s))) - the (timestamp (hd (mCachedBuffers s))))"

text \<open>
  What can happen to a cache: the calls of its consumers (\<open>start\<close>, \<open>stop\<close>,
  \<open>read\<close>, and a reader blocked in \<open>read\<close> coming back from its wait) and the two
  calls of the worker thread.
\<close>

datatype cache_op =
    Op_start "MetaData option"
  | Op_stop
  | Op_read "ReadOptions option"
  | Op_wakeup
  | Op_cacheMore
  | Op_onPrefetcherStopped

fun apply_op :: "cache_op \<Rightarrow> PrefetchedSource \<Rightarrow> fault + PrefetchedSource" where
  "apply_op (Op_start params) s = map_sum id snd (start s params)"
| "apply_op Op_stop s = map_sum id snd (stop s)"
| "apply_op (Op_read options) s = map_sum id snd (read s options)"
| "apply_op Op_wakeup s = map_sum id snd (read_wakeup s)"
| "apply_op Op_cacheMore s = cacheMore s"
| "apply_op Op_onPrefetcherStopped s = Inr (onPrefetcherStopped s)"

fun run_ops :: "cache_op list \<Rightarrow> PrefetchedSource \<Rightarrow> fault + PrefetchedSource" where
  "run_ops [] s = Inr s"
| "run_ops (x # xs) s = (case apply_op x s of Inl f \<Rightarrow> Inl f | Inr s1 \<Rightarrow> run_ops xs s1)"

text \<open>
  A call of a consumer on the cache registered at index \<open>i\<close>; a cache that no longer
  resolves has no consumer.
\<close>

definition on_cache :: "nat \<Rightarrow> cache_op \<Rightarrow> Prefetcher \<Rightarrow> fault + Prefetcher" where
  "on_cache i x p =
     (case mSources p ! i of
        None \<Rightarrow> Inr p
      | Some c \<Rightarrow>
          (case apply_op x c of
             Inl f \<Rightarrow> Inl f
           | Inr c1 \<Rightarrow> Inr (p\<lparr>mSources := (mSources p)[i := Some c1]\<rparr>)))"

text \<open>
  The options of the \<open>read\<close> calls among the calls a source has received, and the
  operations that carry a seek request.
\<close>

fun reads_of :: "call list \<Rightarrow> ReadOptions list" where
  "reads_of [] = []"
| "reads_of (Call_read options # cs) = options # reads_of cs"
| "reads_of (c # cs) = reads_of cs"

definition seeking :: "cache_op \<Rightarrow> bool" where
  "seeking x = (case x of Op_read (Some (Some t)) \<Rightarrow> True | _ \<Rightarrow> False)"

text \<open>
  A cache is eligible for more fetching when it is started, not at the end of its stream,
  and its stored duration is below the ceiling of ten seconds. \<open>eligible_at\<close> and
  \<open>duration_at\<close> read the registry at an index; an entry that does not resolve is not
  eligible.
\<close>

definition eligible :: "PrefetchedSource \<Rightarrow> bool" where
  "eligible s = (mStarted s \<and> \<not> mReachedEOS s \<and> sint (mCacheDurationUs s) < 10000000)"

definition eligible_at :: "PrefetchedSource option list \<Rightarrow> nat \<Rightarrow> bool" where
  "eligible_at srcs j = (j < length srcs \<and> (case srcs ! j of None \<Rightarrow> False | Some c \<Rightarrow> eligible c))"

definition duration_at :: "PrefetchedSource option list \<Rightarrow> nat \<Rightarrow> int" where
  "duration_at srcs j = (case srcs ! j of None \<Rightarrow> 0 | Some c \<Rightarrow> sint (mCacheDurationUs c))"

text \<open>
  What the scan has to deliver: with no eligible entry the initial triple, and otherwise
  the eligible entry of least duration, the first of them in case of a tie.
\<close>

definition least_buffered ::
  "PrefetchedSource option list \<Rightarrow> int64_t \<times> int \<times> PrefetchedSource option \<Rightarrow> bool" where
  "least_buffered srcs acc =
     (case acc of (d, mi, ms) \<Rightarrow>
        if \<exists>j. eligible_at srcs j
        then \<exists>k. mi = int k \<and> eligible_at srcs k \<and> ms = srcs ! k \<and> sint d = duration_at srcs k \<and>
                 Some d = map_option mCacheDurationUs (srcs ! k) \<and>
                 (\<forall>j. eligible_at srcs j \<longrightarrow>
                        duration_at srcs k \<le> duration_at srcs j \<and>
                        (duration_at srcs j = duration_at srcs k \<longrightarrow> k \<le> j))
        else acc = (- 1, - 1, None))"

text \<open>
  The condition under which \<open>prepare\<close> leaves its loop.
\<close>

definition warm :: "Prefetcher \<Rightarrow> bool" where
  "warm p = (case getCachedDurationUs p of (duration, noMoreData) \<Rightarrow> noMoreData \<or> 2000000 \<le> sint duration)"

text \<open>
  Every queued buffer has a time stamp; and the two assertions of
  \<open>updateCacheDuration_l\<close>.
\<close>

definition all_timed :: "MediaBuffer list \<Rightarrow> bool" where
  "all_timed q = list_all (\<lambda>b. timestamp b \<noteq> None) q"

definition timestamp_assertion :: "fault \<Rightarrow> bool" where
  "timestamp_assertion f =
     (f = CHECK_failed ''first findInt64(kKeyTime)'' \<or> f = CHECK_failed ''last findInt64(kKeyTime)'')"

subsection \<open>Sources, caches and registries for the examples\<close>

text \<open>
  A source that answers its \<open>k\<close>-th call with the \<open>k\<close>-th entry of a list, and with
  end of stream once the list is used up.
\<close>

definition scripted :: "(status_t \<times> MediaBuffer option) list \<Rightarrow> MediaSource" where
  "scripted answers =
     \<lparr>respond = (\<lambda>h c. if length h < length answers then answers ! length h
                         else (ERROR_END_OF_STREAM, None)),
      calls = []\<rparr>"

definition sample :: "int64_t \<Rightarrow> MediaBuffer" where
  "sample t =
     \<lparr>data = [7, 8, 9, 10], range_offset = 1, range_length = 2, meta_data = [(kKeyTime, t)]\<rparr>"

definition untimed :: MediaBuffer where
  "untimed = \<lparr>data = [7, 8, 9, 10], range_offset = 1, range_length = 2, meta_data = []\<rparr>"

text \<open>
  A started cache past its first fetch that holds two buffers spanning \<open>d\<close>; a
  started cache whose source fails its first read; and registries built from them.
\<close>

definition caching :: "nat \<Rightarrow> int64_t \<Rightarrow> PrefetchedSource" where
  "caching i d =
     (PrefetchedSource_new i (scripted []))
       \<lparr>mStarted := True, mSeekTimeUs := - 1, mCacheDurationUs := d,
        mCachedBuffers := [copy_of (sample 0), copy_of (sample d)]\<rparr>"

definition failing :: "nat \<Rightarrow> PrefetchedSource" where
  "failing i =
     (PrefetchedSource_new i
        ((scripted [(OK, None), (ERROR_OTHER 5, None)])\<lparr>calls := [Call_start None]\<rparr>))
       \<lparr>mStarted := True\<rparr>"

definition registry :: Prefetcher where
  "registry =
     \<lparr>mDone = False, mThreadExited = False,
      mSources =
        [None,
         Some (PrefetchedSource_new 1 (scripted [])),
         Some (caching 2 5000000),
         Some (caching 3 3000000),
         Some (caching 4 3000000),
         Some ((caching 5 1000000)\<lparr>mReachedEOS := True\<rparr>),
         Some (caching 6 10000000)],
      mThreadCondition = 0\<rparr>"

definition two_caches :: Prefetcher where
  "two_caches =
     \<lparr>mDone = False, mThreadExited = False,
      mSources = [Some (failing 0), Some (caching 1 3000000)],
      mThreadCondition = 0\<rparr>"

definition shutting_down :: Prefetcher where
  "shutting_down =
     \<lparr>mDone = True, mThreadExited = False,
      mSources = [Some ((PrefetchedSource_new 0 (scripted []))\<lparr>mStarted := True\<rparr>), None, Some (caching 2 4)],
      mThreadCondition = 0\<rparr>"

text \<open>
  A prefetcher with one source that delivers the time stamps 5 and 3 in this order:
  registration, \<open>start\<close>, and two cycles of the worker.
\<close>

definition out_of_order :: "fault + Prefetcher" where
  "out_of_order =
     (case on_cache 0 (Op_start None)
             (snd (addSource Prefetcher_new
                     (scripted [(OK, None), (OK, Some (sample 5)), (OK, Some (sample 3))]))) of
        Inl f \<Rightarrow> Inl f
      | Inr p1 \<Rightarrow>
          (case threadFunc_cycle p1 of
             Inl f \<Rightarrow> Inl f
           | Inr p2 \<Rightarrow> threadFunc_cycle p2))"

section \<open>Properties\<close>

subsection \<open>Evaluation and basic facts\<close>

lemmas model_defs = PrefetchedSource_new_def scripted_def sample_def untimed_def start_def stop_def
  read_def read_seek_def read_wait_def read_wakeup_def cacheMore_def invoke_def setSeekTo_def getSeekTo_def
  updateCacheDuration_l_def clearCache_l_def copy_of_def MediaBuffer_new_def findInt64_def setInt64_def
  kKeyTime_def onPrefetcherStopped_def timestamp_def

lemma clearCache_loop_eq: "clearCache_loop q rel = ([], rel @ q)"
  by (induction q arbitrary: rel) simp_all

lemma clearCache_l_eq:
  "clearCache_l s = Inr (s\<lparr>mCachedBuffers := [], released := released s @ mCachedBuffers s, mCacheDurationUs := 0\<rparr>)"
  by (simp add: clearCache_l_def clearCache_loop_eq updateCacheDuration_l_def)

lemma updateCacheDuration_l_ok:
  "updateCacheDuration_l s = Inr s' \<Longrightarrow> duration_ok s' \<and> s' = s\<lparr>mCacheDurationUs := mCacheDurationUs s'\<rparr>"
  by (auto simp: updateCacheDuration_l_def duration_ok_def timestamp_def split: if_splits option.splits)

lemma updateCacheDuration_l_cases:
  "(case updateCacheDuration_l s of
      Inl f \<Rightarrow> 2 \<le> length (mCachedBuffers s) \<and>
               (timestamp (hd (mCachedBuffers s)) = None \<or> timestamp (last (mCachedBuffers s)) = None)
    | Inr s' \<Rightarrow> duration_ok s' \<and> s' = s\<lparr>mCacheDurationUs := mCacheDurationUs s'\<rparr>)"
  by (auto simp: updateCacheDuration_l_def duration_ok_def timestamp_def split: option.splits)

lemma read_seek_eq:
  "read_seek s options =
     (if \<not> mStarted s then Inl (CHECK_failed ''mStarted'')
      else case options of
             Some (Some t) \<Rightarrow>
               if 0 \<le> sint t
               then Inr (s\<lparr>mCachedBuffers := [], released := released s @ mCachedBuffers s,
                          mCacheDurationUs := 0, mReachedEOS := False, mSeekTimeUs := t\<rparr>)
               else Inl (CHECK_failed ''seekTimeUs >= 0'')
           | _ \<Rightarrow> Inr s)"
  by (simp add: read_seek_def getSeekTo_def clearCache_l_eq split: option.splits)

lemma read_wakeup_source:
  "read_wakeup s = Inr (r, s') \<Longrightarrow> mSource s' = mSource s \<and> mSeekTimeUs s' = mSeekTimeUs s \<and>
     mStarted s' = mStarted s \<and> mPrefetcherStopped s' = mPrefetcherStopped s"
  by (auto simp: read_wakeup_def updateCacheDuration_l_def
      split: if_splits list.splits sum.splits option.splits)

subsection \<open>Duration accounting\<close>

lemma read_wakeup_duration:
  "read_wakeup s = Inr (r, s') \<Longrightarrow> duration_ok s \<or> mCachedBuffers s' \<noteq> mCachedBuffers s \<Longrightarrow> duration_ok s'"
  by (auto simp: read_wakeup_def split: if_splits list.splits sum.splits dest: updateCacheDuration_l_ok)

lemma read_seek_duration:
  "read_seek s options = Inr s' \<Longrightarrow> (s' = s) \<or> (duration_ok s' \<and> mCachedBuffers s' = [])"
  by (auto simp: read_seek_def clearCache_l_eq duration_ok_def split: if_splits option.splits)

lemma read_duration:
  assumes "read s options = Inr (r, s')" and "duration_ok s \<or> mCachedBuffers s' \<noteq> mCachedBuffers s"
  shows "duration_ok s'"
proof -
  from assms(1) obtain s1 where 1: "read_seek s options = Inr s1" and 2: "read_wakeup s1 = Inr (r, s')"
    by (auto simp: read_def split: sum.splits)
  from read_seek_duration [OF 1] show ?thesis
  proof
    assume "s1 = s" with 2 assms(2) show ?thesis by (auto dest: read_wakeup_duration)
  next
    assume "duration_ok s1 \<and> mCachedBuffers s1 = []"
    with 2 show ?thesis by (auto dest: read_wakeup_duration)
  qed
qed

lemma stop_duration: "stop s = Inr (e, s') \<Longrightarrow> duration_ok s' \<and> mCachedBuffers s' = []"
  by (auto simp: stop_def clearCache_l_eq invoke_def duration_ok_def split: if_splits prod.splits)

lemma start_duration: "start s params = Inr (e, s') \<Longrightarrow> mCachedBuffers s' = mCachedBuffers s \<and> mCacheDurationUs s' = mCacheDurationUs s"
  by (auto simp: start_def invoke_def split: if_splits prod.splits)

lemma cacheMore_duration:
  assumes "cacheMore s = Inr s'" and "duration_ok s \<or> mCachedBuffers s' \<noteq> mCachedBuffers s"
  shows "duration_ok s'"
  using assms
  by (auto simp: cacheMore_def invoke_def setSeekTo_def duration_ok_def
      split: if_splits prod.splits option.splits sum.splits dest!: updateCacheDuration_l_ok)

text \<open>
  Claim C2. A new cache stores the span of its (empty) queue. Every operation on a cache
  that returns keeps the stored duration equal to the span of the queue, and every
  operation that changes the queue (the append of \<open>cacheMore\<close>, the pop of \<open>read\<close>,
  the drain of a seek or of \<open>stop\<close>) leaves it equal to the span whatever it was
  before: the newest time stamp minus the oldest with two or more buffers queued, and 0
  with fewer.
\<close>

theorem duration_is_span:
  "duration_ok (PrefetchedSource_new index source) \<and>
   (apply_op op s = Inr s' \<longrightarrow> duration_ok s \<or> mCachedBuffers s' \<noteq> mCachedBuffers s \<longrightarrow> duration_ok s')"
proof (intro conjI impI)
  show "duration_ok (PrefetchedSource_new index source)"
    by (simp add: duration_ok_def PrefetchedSource_new_def)
next
  assume ok: "apply_op op s = Inr s'" and pre: "duration_ok s \<or> mCachedBuffers s' \<noteq> mCachedBuffers s"
  show "duration_ok s'"
  proof (cases op)
    case (Op_start params)
    with ok obtain e where "start s params = Inr (e, s')" by (cases "start s params") auto
    from start_duration [OF this] pre show ?thesis by (simp add: duration_ok_def)
  next
    case Op_stop
    with ok obtain e where "stop s = Inr (e, s')" by (cases "stop s") auto
    then show ?thesis by (simp add: stop_duration)
  next
    case (Op_read options)
    with ok obtain r where "read s options = Inr (r, s')" by (cases "read s options") auto
    from read_duration [OF this pre] show ?thesis .
  next
    case Op_wakeup
    with ok obtain r where "read_wakeup s = Inr (r, s')" by (cases "read_wakeup s") auto
    with pre show ?thesis by (auto dest: read_wakeup_duration)
  next
    case Op_cacheMore
    with ok pre show ?thesis by (auto intro: cacheMore_duration)
  next
    case Op_onPrefetcherStopped
    with ok pre show ?thesis by (auto simp: onPrefetcherStopped_def duration_ok_def)
  qed
qed

theorem duration_is_span_witness:
  "\<exists>s s'. run_ops [Op_start None, Op_cacheMore, Op_cacheMore]
             (PrefetchedSource_new 0 (scripted [(OK, None), (OK, Some (sample 5)), (OK, Some (sample 9)), (OK, Some (sample 20))])) = Inr s \<and>
      duration_ok s \<and> mCacheDurationUs s = 4 \<and>
      apply_op Op_cacheMore s = Inr s' \<and> mCachedBuffers s' \<noteq> mCachedBuffers s \<and>
      mCacheDurationUs s' = 15 \<and> duration_ok s'"
proof -
  obtain s where s: "run_ops [Op_start None, Op_cacheMore, Op_cacheMore]
             (PrefetchedSource_new 0 (scripted [(OK, None), (OK, Some (sample 5)), (OK, Some (sample 9)), (OK, Some (sample 20))])) = Inr s"
    by (simp add: model_defs)
  then have d: "mCacheDurationUs s = 4" and ok: "duration_ok s"
    by (auto simp add: model_defs duration_ok_def)
  from s obtain s' where s': "apply_op Op_cacheMore s = Inr s'"
    by (auto simp add: model_defs)
  with s have q: "mCachedBuffers s' \<noteq> mCachedBuffers s" and d': "mCacheDurationUs s' = 15"
    by (auto simp add: model_defs)
  from duration_is_span [of _ _ Op_cacheMore s s'] s' q have "duration_ok s'" by blast
  with s d ok s' q d' show ?thesis by blast
qed

subsection \<open>The assertion on time stamps\<close>

lemma timestamp_copy_of: "timestamp (copy_of buf) = timestamp buf"
  by (simp add: timestamp_def copy_of_def MediaBuffer_new_def findInt64_def setInt64_def Let_def
      split: option.splits)

lemma updateCacheDuration_l_fails_iff:
  "(\<exists>f. updateCacheDuration_l s = Inl f) \<longleftrightarrow>
     2 \<le> length (mCachedBuffers s) \<and>
     (timestamp (hd (mCachedBuffers s)) = None \<or> timestamp (last (mCachedBuffers s)) = None)"
  by (auto simp: updateCacheDuration_l_def timestamp_def split: option.splits)

lemma updateCacheDuration_l_fault:
  "updateCacheDuration_l s = Inl f \<Longrightarrow> timestamp_assertion f"
  by (auto simp: updateCacheDuration_l_def timestamp_assertion_def split: if_splits option.splits)

lemma updateCacheDuration_l_timed:
  assumes "all_timed (mCachedBuffers s)"
  shows "\<exists>d. updateCacheDuration_l s = Inr (s\<lparr>mCacheDurationUs := d\<rparr>)"
proof (cases "length (mCachedBuffers s) < 2")
  case True
  then show ?thesis by (auto simp: updateCacheDuration_l_def)
next
  case False
  then have "mCachedBuffers s \<noteq> []" by auto
  then have "hd (mCachedBuffers s) \<in> set (mCachedBuffers s)" "last (mCachedBuffers s) \<in> set (mCachedBuffers s)"
    by simp_all
  with assms have "timestamp (hd (mCachedBuffers s)) \<noteq> None" "timestamp (last (mCachedBuffers s)) \<noteq> None"
    by (auto simp: all_timed_def list_all_iff)
  with False show ?thesis
    by (auto simp: updateCacheDuration_l_def timestamp_def)
qed

lemma read_wakeup_timed:
  assumes "all_timed (mCachedBuffers s)"
  shows "case read_wakeup s of
           Inl f \<Rightarrow> False
         | Inr (r, s') \<Rightarrow> all_timed (mCachedBuffers s') \<and> mSource s' = mSource s"
proof (cases "read_wait s \<or> mCachedBuffers s = []")
  case True
  with assms show ?thesis by (auto simp: read_wakeup_def)
next
  case False
  then obtain b bs where q: "mCachedBuffers s = b # bs" by (cases "mCachedBuffers s") auto
  with assms have "all_timed (mCachedBuffers (s\<lparr>mCachedBuffers := bs\<rparr>))"
    by (simp add: all_timed_def)
  from updateCacheDuration_l_timed [OF this] obtain d
    where "updateCacheDuration_l (s\<lparr>mCachedBuffers := bs\<rparr>) = Inr (s\<lparr>mCachedBuffers := bs, mCacheDurationUs := d\<rparr>)"
    by auto
  with False q assms show ?thesis by (simp add: read_wakeup_def all_timed_def)
qed

lemma apply_op_timed:
  assumes src: "\<forall>h options buf. respond (mSource s) h (Call_read options) = (OK, Some buf) \<longrightarrow> timestamp buf \<noteq> None"
    and q: "all_timed (mCachedBuffers s)"
  shows "case apply_op x s of
           Inl f \<Rightarrow> \<not> timestamp_assertion f
         | Inr s' \<Rightarrow> all_timed (mCachedBuffers s') \<and> respond (mSource s') = respond (mSource s)"
proof (cases x)
  case (Op_start params)
  with q show ?thesis
    by (auto simp: start_def invoke_def timestamp_assertion_def split: prod.splits)
next
  case Op_stop
  then show ?thesis
    by (auto simp: stop_def invoke_def clearCache_l_eq timestamp_assertion_def all_timed_def
        split: prod.splits)
next
  case (Op_read options)
  show ?thesis
  proof (cases "read_seek s options")
    case (Inl f)
    then have "\<not> timestamp_assertion f"
      by (auto simp: read_seek_eq timestamp_assertion_def split: if_splits option.splits)
    with Inl Op_read show ?thesis by (simp add: read_def)
  next
    case (Inr s1)
    with q have "all_timed (mCachedBuffers s1)" and "mSource s1 = mSource s"
      by (auto simp: read_seek_eq all_timed_def split: if_splits option.splits)
    with read_wakeup_timed [of s1] Inr Op_read show ?thesis
      by (auto simp: read_def split: sum.splits)
  qed
next
  case Op_wakeup
  with read_wakeup_timed [OF q] show ?thesis by (auto split: sum.splits)
next
  case Op_cacheMore
  show ?thesis
  proof (cases "mStarted s")
    case False
    with q Op_cacheMore show ?thesis by (simp add: cacheMore_def)
  next
    case True
    let ?o = "if 0 \<le> sint (mSeekTimeUs s) then Some (mSeekTimeUs s) else None"
    let ?s1 = "if 0 \<le> sint (mSeekTimeUs s) then s\<lparr>mSeekTimeUs := - 1\<rparr> else s"
    let ?src = "(mSource s)\<lparr>calls := calls (mSource s) @ [Call_read ?o]\<rparr>"
    obtain err buffer where r: "respond (mSource s) (calls (mSource s)) (Call_read ?o) = (err, buffer)"
      by force
    show ?thesis
    proof (cases "err = OK")
      case False
      with True r q Op_cacheMore show ?thesis
        by (cases "0 \<le> sint (mSeekTimeUs s)") (simp_all add: cacheMore_def invoke_def setSeekTo_def)
    next
      case ok: True
      show ?thesis
      proof (cases buffer)
        case None
        with True r ok Op_cacheMore show ?thesis
          by (cases "0 \<le> sint (mSeekTimeUs s)")
             (simp_all add: cacheMore_def invoke_def setSeekTo_def timestamp_assertion_def)
      next
        case (Some buf)
        with src r ok have "timestamp buf \<noteq> None" by blast
        with q have t: "all_timed (mCachedBuffers s @ [copy_of buf])"
          by (simp add: all_timed_def timestamp_copy_of)
        let ?s2 = "?s1\<lparr>mSource := ?src, released := released s @ [buf],
                        mCachedBuffers := mCachedBuffers s @ [copy_of buf]\<rparr>"
        from t have "all_timed (mCachedBuffers ?s2)" by simp
        from updateCacheDuration_l_timed [OF this] obtain d
          where u: "updateCacheDuration_l ?s2 = Inr (?s2\<lparr>mCacheDurationUs := d\<rparr>)" by blast
        have "cacheMore s = Inr (?s2\<lparr>mCacheDurationUs := d, mCondition := Suc (mCondition s)\<rparr>)"
          using True r ok Some u
          by (cases "0 \<le> sint (mSeekTimeUs s)") (simp_all add: cacheMore_def invoke_def setSeekTo_def)
        with t Op_cacheMore show ?thesis by simp
      qed
    qed
  qed
next
  case Op_onPrefetcherStopped
  with q show ?thesis by (simp add: onPrefetcherStopped_def)
qed

lemma run_ops_timed:
  assumes "\<forall>h options buf. respond (mSource s) h (Call_read options) = (OK, Some buf) \<longrightarrow> timestamp buf \<noteq> None"
    and "all_timed (mCachedBuffers s)"
  shows "case run_ops xs s of
           Inl f \<Rightarrow> \<not> timestamp_assertion f
         | Inr s' \<Rightarrow> all_timed (mCachedBuffers s')"
  using assms
proof (induction xs arbitrary: s)
  case Nil
  then show ?case by simp
next
  case (Cons x xs)
  show ?case
  proof (cases "apply_op x s")
    case (Inl f)
    with apply_op_timed [OF Cons.prems, of x] show ?thesis by simp
  next
    case (Inr s1)
    with apply_op_timed [OF Cons.prems, of x]
    have "all_timed (mCachedBuffers s1)" "respond (mSource s1) = respond (mSource s)" by simp_all
    with Cons.prems(1) Cons.IH [of s1] Inr show ?thesis by simp
  qed
qed

text \<open>
  Claim C10. Recomputing the duration fails an assertion exactly when two or more buffers
  are queued and the oldest or the newest has no time stamp. The copy that \<open>cacheMore\<close>
  makes has a time stamp exactly when the source's buffer has one, and it is appended
  either way. When every buffer the source returns has a time stamp, no sequence of
  operations on a cache whose queued buffers all have one fails that assertion, and the
  queued buffers all keep one. Without the precondition the assertion can fail: a source
  that returns two buffers without time stamp has the first one queued and makes the
  second \<open>cacheMore\<close> abort.
\<close>

theorem duration_needs_time_stamps:
  "((\<exists>f. updateCacheDuration_l s = Inl f) \<longleftrightarrow>
      2 \<le> length (mCachedBuffers s) \<and>
      (timestamp (hd (mCachedBuffers s)) = None \<or> timestamp (last (mCachedBuffers s)) = None)) \<and>
   (updateCacheDuration_l s = Inl f \<longrightarrow> timestamp_assertion f) \<and>
   timestamp (copy_of buf) = timestamp buf \<and>
   (mStarted c \<and>
    respond (mSource c) (calls (mSource c))
      (Call_read (if 0 \<le> sint (mSeekTimeUs c) then Some (mSeekTimeUs c) else None)) = (OK, Some buf) \<longrightarrow>
      (case cacheMore c of
         Inl f \<Rightarrow> timestamp_assertion f
       | Inr c' \<Rightarrow> mCachedBuffers c' = mCachedBuffers c @ [copy_of buf])) \<and>
   ((\<forall>h options buf. respond (mSource c) h (Call_read options) = (OK, Some buf) \<longrightarrow> timestamp buf \<noteq> None) \<and>
    all_timed (mCachedBuffers c) \<longrightarrow>
      (case run_ops xs c of
         Inl f \<Rightarrow> \<not> timestamp_assertion f
       | Inr c' \<Rightarrow> all_timed (mCachedBuffers c'))) \<and>
   (\<exists>c'. run_ops [Op_start None, Op_cacheMore]
            (PrefetchedSource_new 0 (scripted [(OK, None), (OK, Some untimed), (OK, Some untimed)])) = Inr c' \<and>
         mCachedBuffers c' = [copy_of untimed] \<and> timestamp (copy_of untimed) = None) \<and>
   run_ops [Op_start None, Op_cacheMore, Op_cacheMore]
     (PrefetchedSource_new 0 (scripted [(OK, None), (OK, Some untimed), (OK, Some untimed)])) =
     Inl (CHECK_failed ''first findInt64(kKeyTime)'')"
proof (intro conjI impI)
  show "(\<exists>f. updateCacheDuration_l s = Inl f) \<longleftrightarrow>
      2 \<le> length (mCachedBuffers s) \<and>
      (timestamp (hd (mCachedBuffers s)) = None \<or> timestamp (last (mCachedBuffers s)) = None)"
    by (rule updateCacheDuration_l_fails_iff)
  show "timestamp_assertion f" if "updateCacheDuration_l s = Inl f"
    using that by (rule updateCacheDuration_l_fault)
  show "timestamp (copy_of buf) = timestamp buf"
    by (rule timestamp_copy_of)
  show "case cacheMore c of
         Inl f \<Rightarrow> timestamp_assertion f
       | Inr c' \<Rightarrow> mCachedBuffers c' = mCachedBuffers c @ [copy_of buf]"
    if "mStarted c \<and>
        respond (mSource c) (calls (mSource c))
          (Call_read (if 0 \<le> sint (mSeekTimeUs c) then Some (mSeekTimeUs c) else None)) = (OK, Some buf)"
    using that
    by (cases "0 \<le> sint (mSeekTimeUs c)")
       (auto simp: cacheMore_def invoke_def setSeekTo_def split: sum.splits
          dest: updateCacheDuration_l_fault updateCacheDuration_l_ok [THEN conjunct2, THEN arg_cong [where f = mCachedBuffers]])
  show "case run_ops xs c of
         Inl f \<Rightarrow> \<not> timestamp_assertion f
       | Inr c' \<Rightarrow> all_timed (mCachedBuffers c')"
    if "(\<forall>h options buf. respond (mSource c) h (Call_read options) = (OK, Some buf) \<longrightarrow> timestamp buf \<noteq> None) \<and>
        all_timed (mCachedBuffers c)"
    using that by (intro run_ops_timed) blast+
  show "\<exists>c'. run_ops [Op_start None, Op_cacheMore]
            (PrefetchedSource_new 0 (scripted [(OK, None), (OK, Some untimed), (OK, Some untimed)])) = Inr c' \<and>
         mCachedBuffers c' = [copy_of untimed] \<and> timestamp (copy_of untimed) = None"
    by (simp add: model_defs Let_def)
  show "run_ops [Op_start None, Op_cacheMore, Op_cacheMore]
     (PrefetchedSource_new 0 (scripted [(OK, None), (OK, Some untimed), (OK, Some untimed)])) =
     Inl (CHECK_failed ''first findInt64(kKeyTime)'')"
    by (simp add: model_defs Let_def)
qed

theorem duration_needs_time_stamps_witness:
  "\<exists>c'. run_ops [Op_start None, Op_cacheMore, Op_cacheMore, Op_read None, Op_stop]
          (PrefetchedSource_new 0 (scripted [(OK, None), (OK, Some (sample 5)), (OK, Some (sample 9))])) = Inr c' \<and>
        all_timed (mCachedBuffers c')"
proof -
  let ?c = "PrefetchedSource_new 0 (scripted [(OK, None), (OK, Some (sample 5)), (OK, Some (sample 9))])"
  let ?xs = "[Op_start None, Op_cacheMore, Op_cacheMore, Op_read None, Op_stop]"
  have src: "\<forall>h options buf. respond (mSource ?c) h (Call_read options) = (OK, Some buf) \<longrightarrow> timestamp buf \<noteq> None"
    by (auto simp: PrefetchedSource_new_def scripted_def sample_def timestamp_def findInt64_def
        nth_Cons' split: if_splits)
  have q: "all_timed (mCachedBuffers ?c)"
    by (simp add: PrefetchedSource_new_def all_timed_def)
  obtain c' where run: "run_ops ?xs ?c = Inr c'"
    by (simp add: model_defs Let_def)
  from duration_needs_time_stamps [where c = ?c and xs = ?xs] src q
  have "case run_ops ?xs ?c of
         Inl f \<Rightarrow> \<not> timestamp_assertion f
       | Inr c' \<Rightarrow> all_timed (mCachedBuffers c')"
    by blast
  with run show ?thesis by simp
qed

subsection \<open>Starting a cache\<close>

text \<open>
  Claim C7. \<open>start\<close> on a cache that is not started passes its parameters to the
  \<open>start\<close> of the underlying source and returns the status the source reports; on a
  failure the cache stays not started and nothing but the source has changed; the cache
  becomes started exactly when the source reports \<open>OK\<close>. On a started cache the
  \<open>CHECK\<close> at the head of \<open>start\<close> fails.
\<close>

theorem start_contract:
  assumes "respond (mSource s) (calls (mSource s)) (Call_start params) = (err, b)"
  shows "(mStarted s \<longrightarrow> start s params = Inl (CHECK_failed ''!mStarted'')) \<and>
         (\<not> mStarted s \<longrightarrow>
            (\<exists>s'. start s params = Inr (err, s') \<and>
                  mSource s' = (mSource s)\<lparr>calls := calls (mSource s) @ [Call_start params]\<rparr> \<and>
                  mStarted s' = (err = OK) \<and>
                  s' = s\<lparr>mSource := mSource s', mStarted := (err = OK)\<rparr>))"
  using assms by (auto simp: start_def invoke_def)

theorem start_contract_witness:
  "(\<exists>s'. start (PrefetchedSource_new 0 (scripted [(ERROR_OTHER 5, None)])) (Some []) = Inr (ERROR_OTHER 5, s') \<and>
         \<not> mStarted s' \<and> calls (mSource s') = [Call_start (Some [])]) \<and>
   (\<exists>s'. start (PrefetchedSource_new 0 (scripted [(OK, None)])) None = Inr (OK, s') \<and> mStarted s' \<and>
         start s' None = Inl (CHECK_failed ''!mStarted''))"
proof -
  have a: "respond (mSource (PrefetchedSource_new 0 (scripted [(ERROR_OTHER 5, None)])))
             (calls (mSource (PrefetchedSource_new 0 (scripted [(ERROR_OTHER 5, None)])))) (Call_start (Some []))
           = (ERROR_OTHER 5, None)"
    by (simp add: PrefetchedSource_new_def scripted_def)
  have b: "respond (mSource (PrefetchedSource_new 0 (scripted [(OK, None)])))
             (calls (mSource (PrefetchedSource_new 0 (scripted [(OK, None)])))) (Call_start None)
           = (OK, None)"
    by (simp add: PrefetchedSource_new_def scripted_def)
  from start_contract [OF a]
  have 1: "\<exists>s'. start (PrefetchedSource_new 0 (scripted [(ERROR_OTHER 5, None)])) (Some []) = Inr (ERROR_OTHER 5, s') \<and>
         \<not> mStarted s' \<and> calls (mSource s') = [Call_start (Some [])]"
    by (auto simp: PrefetchedSource_new_def scripted_def)
  from start_contract [OF b]
  obtain s' where 2: "start (PrefetchedSource_new 0 (scripted [(OK, None)])) None = Inr (OK, s')"
    and 3: "mStarted s'"
    by (auto simp: PrefetchedSource_new_def)
  obtain e b where 6: "respond (mSource s') (calls (mSource s')) (Call_start None) = (e, b)" by force
  from start_contract [OF 6] 3 have "start s' None = Inl (CHECK_failed ''!mStarted'')" by simp
  with 1 2 3 show ?thesis by blast
qed

subsection \<open>Reading from a cache\<close>

text \<open>
  Claim C4. \<open>read\<close> requires a started cache. Without a seek request it goes
  straight to its wait loop, and it waits exactly while the prefetcher is not stopped,
  the end of the stream is not reached and the queue is empty. Once it is past the loop,
  an empty queue gives \<open>ERROR_END_OF_STREAM\<close> and no buffer, with the cache unchanged;
  a queue \<open>b # bs\<close> gives \<open>OK\<close> and the oldest buffer \<open>b\<close>, which leaves the queue
  without being released, and the duration is recomputed for \<open>bs\<close> (the only other
  outcome is the failed assertion of that recomputation, the subject of claim C10).
\<close>

theorem read_blocks_then_pops:
  "(\<not> mStarted s \<longrightarrow> read s options = Inl (CHECK_failed ''mStarted'')) \<and>
   (mStarted s \<and> (options = None \<or> options = Some None) \<longrightarrow> read s options = read_wakeup s) \<and>
   (read_wakeup x = Inr (Waiting, x') \<longleftrightarrow>
      x' = x \<and> \<not> mPrefetcherStopped x \<and> \<not> mReachedEOS x \<and> mCachedBuffers x = []) \<and>
   ((mPrefetcherStopped x \<or> mReachedEOS x) \<and> mCachedBuffers x = [] \<longrightarrow>
      read_wakeup x = Inr (Returned ERROR_END_OF_STREAM None, x)) \<and>
   (mCachedBuffers x = b # bs \<longrightarrow>
      (case read_wakeup x of
         Inl f \<Rightarrow> 2 \<le> length bs \<and> (timestamp (hd bs) = None \<or> timestamp (last bs) = None)
       | Inr (r, x') \<Rightarrow>
           r = Returned OK (Some b) \<and> mCachedBuffers x' = bs \<and> duration_ok x' \<and>
           released x' = released x \<and>
           x' = x\<lparr>mCachedBuffers := bs, mCacheDurationUs := mCacheDurationUs x'\<rparr>))"
proof (intro conjI impI)
  show "read s options = Inl (CHECK_failed ''mStarted'')" if "\<not> mStarted s"
    using that by (simp add: read_def read_seek_def)
  show "read s options = read_wakeup s" if "mStarted s \<and> (options = None \<or> options = Some None)"
    using that by (auto simp: read_def read_seek_def getSeekTo_def)
  show "read_wakeup x = Inr (Waiting, x') \<longleftrightarrow>
      x' = x \<and> \<not> mPrefetcherStopped x \<and> \<not> mReachedEOS x \<and> mCachedBuffers x = []"
    by (auto simp: read_wakeup_def read_wait_def split: list.splits sum.splits)
  show "read_wakeup x = Inr (Returned ERROR_END_OF_STREAM None, x)"
    if "(mPrefetcherStopped x \<or> mReachedEOS x) \<and> mCachedBuffers x = []"
    using that by (auto simp: read_wakeup_def read_wait_def)
  show "case read_wakeup x of
         Inl f \<Rightarrow> 2 \<le> length bs \<and> (timestamp (hd bs) = None \<or> timestamp (last bs) = None)
       | Inr (r, x') \<Rightarrow>
           r = Returned OK (Some b) \<and> mCachedBuffers x' = bs \<and> duration_ok x' \<and>
           released x' = released x \<and>
           x' = x\<lparr>mCachedBuffers := bs, mCacheDurationUs := mCacheDurationUs x'\<rparr>"
    if q: "mCachedBuffers x = b # bs"
  proof (cases "updateCacheDuration_l (x\<lparr>mCachedBuffers := bs\<rparr>)")
    case (Inl f)
    with updateCacheDuration_l_cases [of "x\<lparr>mCachedBuffers := bs\<rparr>"] q show ?thesis
      by (simp add: read_wakeup_def read_wait_def)
  next
    case (Inr x1)
    with updateCacheDuration_l_cases [of "x\<lparr>mCachedBuffers := bs\<rparr>"]
    have "duration_ok x1" and e: "x1 = x\<lparr>mCachedBuffers := bs, mCacheDurationUs := mCacheDurationUs x1\<rparr>"
      by simp_all
    moreover from arg_cong [OF e, of mCachedBuffers] arg_cong [OF e, of released]
    have "mCachedBuffers x1 = bs" "released x1 = released x"
      by simp_all
    ultimately show ?thesis using q Inr
      by (simp add: read_wakeup_def read_wait_def)
  qed
qed

theorem read_blocks_then_pops_witness:
  "read (caching 0 4) None = read_wakeup (caching 0 4) \<and>
   (\<exists>x'. read_wakeup (caching 0 4) = Inr (Returned OK (Some (copy_of (sample 0))), x') \<and>
         mCachedBuffers x' = [copy_of (sample 4)] \<and> mCacheDurationUs x' = 0 \<and>
         (\<exists>x''. read_wakeup x' = Inr (Returned OK (Some (copy_of (sample 4))), x'') \<and>
                mCachedBuffers x'' = [] \<and>
                read_wakeup x'' = Inr (Waiting, x'') \<and>
                read_wakeup (onPrefetcherStopped x'') =
                  Inr (Returned ERROR_END_OF_STREAM None, onPrefetcherStopped x'')))"
proof -
  let ?c = "caching 0 4" and ?b0 = "copy_of (sample 0)" and ?b4 = "copy_of (sample 4)"
  have st: "mStarted ?c" and q0: "mCachedBuffers ?c = ?b0 # [?b4]"
    and fl: "\<not> mPrefetcherStopped ?c" "\<not> mReachedEOS ?c"
    by (simp_all add: caching_def PrefetchedSource_new_def)
  from read_blocks_then_pops [where s = ?c and options = None and x = ?c and x' = ?c
      and b = ?b0 and bs = "[?b4]"] st q0
  have 1: "read ?c None = read_wakeup ?c"
    and "case read_wakeup ?c of
           Inl f \<Rightarrow> 2 \<le> length [?b4] \<and> (timestamp (hd [?b4]) = None \<or> timestamp (last [?b4]) = None)
         | Inr (r, x') \<Rightarrow>
             r = Returned OK (Some ?b0) \<and> mCachedBuffers x' = [?b4] \<and> duration_ok x' \<and>
             released x' = released ?c \<and>
             x' = ?c\<lparr>mCachedBuffers := [?b4], mCacheDurationUs := mCacheDurationUs x'\<rparr>"
    by blast+
  then obtain x' where x': "read_wakeup ?c = Inr (Returned OK (Some ?b0), x')"
    and q1: "mCachedBuffers x' = [?b4]" and d1: "duration_ok x'"
    and e1: "x' = ?c\<lparr>mCachedBuffers := [?b4], mCacheDurationUs := mCacheDurationUs x'\<rparr>"
    by (cases "read_wakeup ?c") auto
  from q1 d1 have d: "mCacheDurationUs x' = 0" by (simp add: duration_ok_def)
  from fl arg_cong [OF e1, of mPrefetcherStopped] arg_cong [OF e1, of mReachedEOS]
  have f1: "\<not> mPrefetcherStopped x'" "\<not> mReachedEOS x'" by simp_all
  from read_blocks_then_pops [where s = ?c and options = None and x = x' and x' = x'
      and b = ?b4 and bs = "[]"] q1
  have "case read_wakeup x' of
           Inl f \<Rightarrow> 2 \<le> length ([] :: MediaBuffer list) \<and>
                    (timestamp (hd []) = None \<or> timestamp (last []) = None)
         | Inr (r, x'') \<Rightarrow>
             r = Returned OK (Some ?b4) \<and> mCachedBuffers x'' = [] \<and> duration_ok x'' \<and>
             released x'' = released x' \<and>
             x'' = x'\<lparr>mCachedBuffers := [], mCacheDurationUs := mCacheDurationUs x''\<rparr>"
    by blast
  then obtain x'' where x'': "read_wakeup x' = Inr (Returned OK (Some ?b4), x'')"
    and q2: "mCachedBuffers x'' = []"
    and e2: "x'' = x'\<lparr>mCachedBuffers := [], mCacheDurationUs := mCacheDurationUs x''\<rparr>"
    by (cases "read_wakeup x'") auto
  from f1 arg_cong [OF e2, of mPrefetcherStopped] arg_cong [OF e2, of mReachedEOS]
  have f2: "\<not> mPrefetcherStopped x''" "\<not> mReachedEOS x''" by simp_all
  from read_blocks_then_pops [where s = ?c and options = None and x = x'' and x' = x''
      and b = ?b4 and bs = "[]"] q2 f2
  have w: "read_wakeup x'' = Inr (Waiting, x'')" by blast
  from read_blocks_then_pops [where s = ?c and options = None and x = "onPrefetcherStopped x''"
      and x' = x'' and b = ?b4 and bs = "[]"] q2
  have "read_wakeup (onPrefetcherStopped x'') =
                  Inr (Returned ERROR_END_OF_STREAM None, onPrefetcherStopped x'')"
    by (simp add: onPrefetcherStopped_def)
  with 1 x' q1 d x'' q2 w show ?thesis by blast
qed

subsection \<open>Seeking\<close>

lemma reads_of_append: "reads_of (xs @ ys) = reads_of xs @ reads_of ys"
  by (induction xs rule: reads_of.induct) simp_all

lemma apply_op_reads:
  assumes "apply_op x s = Inr s'" and "\<not> seeking x"
  shows "\<exists>new. calls (mSource s') = calls (mSource s) @ new \<and>
           ((reads_of new = [] \<and> mSeekTimeUs s' = mSeekTimeUs s) \<or>
            (reads_of new = [if 0 \<le> sint (mSeekTimeUs s) then Some (mSeekTimeUs s) else None] \<and>
             sint (mSeekTimeUs s') < 0))"
proof (cases x)
  case (Op_start params)
  with assms(1) show ?thesis
    by (auto simp: start_def invoke_def split: if_splits prod.splits)
next
  case Op_stop
  with assms(1) show ?thesis
    by (auto simp: stop_def invoke_def clearCache_l_eq split: if_splits prod.splits)
next
  case (Op_read options)
  with assms obtain r where "read s options = Inr (r, s')" and "read_seek s options = Inr s"
    by (cases "read s options") (auto simp: seeking_def read_seek_eq read_def split: option.splits if_splits)
  then have "read_wakeup s = Inr (r, s')" by (simp add: read_def)
  from read_wakeup_source [OF this] show ?thesis by simp
next
  case Op_wakeup
  with assms obtain r where "read_wakeup s = Inr (r, s')" by (cases "read_wakeup s") auto
  from read_wakeup_source [OF this] show ?thesis by simp
next
  case Op_cacheMore
  with assms(1) have cm: "cacheMore s = Inr s'" by simp
  show ?thesis
  proof (cases "mStarted s")
    case False
    with cm show ?thesis by (simp add: cacheMore_def)
  next
    case True
    with cm have "calls (mSource s') = calls (mSource s) @
        [Call_read (if 0 \<le> sint (mSeekTimeUs s) then Some (mSeekTimeUs s) else None)] \<and>
        sint (mSeekTimeUs s') < 0"
      by (auto simp: cacheMore_def invoke_def setSeekTo_def updateCacheDuration_l_def
          split: if_splits prod.splits option.splits sum.splits)
    then show ?thesis by simp
  qed
next
  case Op_onPrefetcherStopped
  with assms(1) show ?thesis by (auto simp: onPrefetcherStopped_def)
qed

lemma run_ops_reads:
  assumes "run_ops xs s = Inr s'" and "\<forall>x \<in> set xs. \<not> seeking x"
  shows "\<exists>new. calls (mSource s') = calls (mSource s) @ new \<and>
           (if 0 \<le> sint (mSeekTimeUs s)
            then (reads_of new = [] \<and> mSeekTimeUs s' = mSeekTimeUs s) \<or>
                 (\<exists>n. reads_of new = Some (mSeekTimeUs s) # replicate n None \<and> sint (mSeekTimeUs s') < 0)
            else (\<exists>n. reads_of new = replicate n None) \<and> sint (mSeekTimeUs s') < 0)"
  using assms
proof (induction xs arbitrary: s)
  case Nil
  then show ?case by (auto intro: exI [of _ 0])
next
  case (Cons x xs)
  from Cons.prems(1) obtain s1 where 1: "apply_op x s = Inr s1" and 2: "run_ops xs s1 = Inr s'"
    by (auto split: sum.splits)
  from Cons.prems(2) have nx: "\<not> seeking x" and nxs: "\<forall>x \<in> set xs. \<not> seeking x" by simp_all
  from apply_op_reads [OF 1 nx] obtain new1 where n1: "calls (mSource s1) = calls (mSource s) @ new1"
    and c1: "(reads_of new1 = [] \<and> mSeekTimeUs s1 = mSeekTimeUs s) \<or>
            (reads_of new1 = [if 0 \<le> sint (mSeekTimeUs s) then Some (mSeekTimeUs s) else None] \<and>
             sint (mSeekTimeUs s1) < 0)"
    by blast
  from Cons.IH [OF 2 nxs] obtain new2 where n2: "calls (mSource s') = calls (mSource s1) @ new2"
    and c2: "if 0 \<le> sint (mSeekTimeUs s1)
            then (reads_of new2 = [] \<and> mSeekTimeUs s' = mSeekTimeUs s1) \<or>
                 (\<exists>n. reads_of new2 = Some (mSeekTimeUs s1) # replicate n None \<and> sint (mSeekTimeUs s') < 0)
            else (\<exists>n. reads_of new2 = replicate n None) \<and> sint (mSeekTimeUs s') < 0"
    by blast
  have calls: "calls (mSource s') = calls (mSource s) @ (new1 @ new2)"
    using n1 n2 by simp
  from c1 show ?case
  proof
    assume "reads_of new1 = [] \<and> mSeekTimeUs s1 = mSeekTimeUs s"
    with c2 calls show ?thesis
      by (intro exI [of _ "new1 @ new2"]) (auto simp: reads_of_append split: if_splits)
  next
    assume a: "reads_of new1 = [if 0 \<le> sint (mSeekTimeUs s) then Some (mSeekTimeUs s) else None] \<and>
             sint (mSeekTimeUs s1) < 0"
    with c2 obtain n where n: "reads_of new2 = replicate n None" and neg: "sint (mSeekTimeUs s') < 0"
      by auto
    show ?thesis
    proof (cases "0 \<le> sint (mSeekTimeUs s)")
      case True
      with a n neg calls show ?thesis
        by (intro exI [of _ "new1 @ new2"]) (auto simp: reads_of_append)
    next
      case False
      with a n have "reads_of (new1 @ new2) = replicate (Suc n) None"
        by (simp add: reads_of_append)
      with False neg calls show ?thesis
        by (intro exI [of _ "new1 @ new2"]) (auto simp del: replicate_Suc)
    qed
  qed
qed

text \<open>
  Claim C3. On a started cache a \<open>read\<close> with a seek request to \<open>T \<ge> 0\<close>
  releases every queued buffer and empties the queue, sets the duration to 0, clears the
  end-of-stream flag and stores \<open>T\<close> as the pending seek, without a call to the source.
  The next \<open>cacheMore\<close> passes \<open>T\<close> to the \<open>read\<close> of the source. In any
  sequence of later operations without a new seek request, the reads the source receives
  are one with the seek to \<open>T\<close> followed by reads without a seek option.
\<close>

theorem seek_discards_and_is_applied_once:
  assumes "mStarted s" and "0 \<le> sint T"
  shows "\<exists>r s1. read s (Some (Some T)) = Inr (r, s1) \<and>
           (r = Waiting \<or> r = Returned ERROR_END_OF_STREAM None) \<and>
           mCachedBuffers s1 = [] \<and> released s1 = released s @ mCachedBuffers s \<and>
           mCacheDurationUs s1 = 0 \<and> \<not> mReachedEOS s1 \<and> mSeekTimeUs s1 = T \<and>
           mSource s1 = mSource s \<and>
           (\<forall>s2. cacheMore s1 = Inr s2 \<longrightarrow>
                 calls (mSource s2) = calls (mSource s1) @ [Call_read (Some T)] \<and>
                 sint (mSeekTimeUs s2) < 0) \<and>
           (\<forall>xs s3. run_ops xs s1 = Inr s3 \<and> (\<forall>x \<in> set xs. \<not> seeking x) \<longrightarrow>
                 (\<exists>new. calls (mSource s3) = calls (mSource s1) @ new \<and>
                        (reads_of new = [] \<or> (\<exists>n. reads_of new = Some T # replicate n None))))"
proof -
  let ?s1 = "s\<lparr>mCachedBuffers := [], released := released s @ mCachedBuffers s,
               mCacheDurationUs := 0, mReachedEOS := False, mSeekTimeUs := T\<rparr>"
  let ?r = "if mPrefetcherStopped s then Returned ERROR_END_OF_STREAM None else Waiting"
  have rd: "read s (Some (Some T)) = Inr (?r, ?s1)"
    using assms by (simp add: read_def read_seek_eq read_wakeup_def read_wait_def)
  have next_fetch: "calls (mSource s2) = calls (mSource ?s1) @ [Call_read (Some T)] \<and>
                 sint (mSeekTimeUs s2) < 0" if "cacheMore ?s1 = Inr s2" for s2
    using apply_op_reads [of Op_cacheMore ?s1 s2] that assms
    by (auto simp: seeking_def cacheMore_def invoke_def setSeekTo_def updateCacheDuration_l_def
          split: if_splits prod.splits option.splits sum.splits)
  have later: "\<exists>new. calls (mSource s3) = calls (mSource ?s1) @ new \<and>
                        (reads_of new = [] \<or> (\<exists>n. reads_of new = Some T # replicate n None))"
    if "run_ops xs ?s1 = Inr s3 \<and> (\<forall>x \<in> set xs. \<not> seeking x)" for xs s3
  proof -
    from that run_ops_reads [of xs ?s1 s3] assms(2) show ?thesis by auto
  qed
  from rd next_fetch later show ?thesis
    by (intro exI [of _ ?r] exI [of _ ?s1]) simp
qed

theorem seek_discards_and_is_applied_once_witness:
  "\<exists>s1 s2 s3. read (caching 0 4) (Some (Some 7)) = Inr (Waiting, s1) \<and>
      mCachedBuffers s1 = [] \<and> released s1 = [copy_of (sample 0), copy_of (sample 4)] \<and>
      mCacheDurationUs s1 = 0 \<and> mSeekTimeUs s1 = 7 \<and>
      cacheMore s1 = Inr s2 \<and> calls (mSource s2) = [Call_read (Some 7)] \<and>
      run_ops [Op_cacheMore, Op_wakeup, Op_cacheMore] s1 = Inr s3 \<and>
      reads_of (calls (mSource s3)) = [Some 7, None]"
proof -
  have a: "mStarted (caching 0 4)" "0 \<le> sint (7 :: int64_t)"
    by (simp_all add: caching_def)
  from seek_discards_and_is_applied_once [OF a]
  obtain r s1 where rd: "read (caching 0 4) (Some (Some 7)) = Inr (r, s1)"
    and q: "mCachedBuffers s1 = []" "released s1 = released (caching 0 4) @ mCachedBuffers (caching 0 4)"
      "mCacheDurationUs s1 = 0" "mSeekTimeUs s1 = 7" "mSource s1 = mSource (caching 0 4)"
    and nf: "\<forall>s2. cacheMore s1 = Inr s2 \<longrightarrow>
                 calls (mSource s2) = calls (mSource s1) @ [Call_read (Some 7)] \<and> sint (mSeekTimeUs s2) < 0"
    by blast
  have ev: "read (caching 0 4) (Some (Some 7)) =
      Inr (Waiting, (caching 0 4)\<lparr>mCachedBuffers := [], released := [copy_of (sample 0), copy_of (sample 4)],
                           mCacheDurationUs := 0, mReachedEOS := False, mSeekTimeUs := 7\<rparr>)"
    by (simp add: read_def read_seek_eq read_wakeup_def read_wait_def caching_def PrefetchedSource_new_def)
  with rd have r: "r = Waiting"
    and s1: "s1 = (caching 0 4)\<lparr>mCachedBuffers := [], released := [copy_of (sample 0), copy_of (sample 4)],
                           mCacheDurationUs := 0, mReachedEOS := False, mSeekTimeUs := 7\<rparr>"
    by simp_all
  obtain s2 where s2: "cacheMore s1 = Inr s2"
    unfolding s1 by (simp add: model_defs caching_def)
  with nf q have c2: "calls (mSource s2) = [Call_read (Some 7)]"
    by (simp add: caching_def PrefetchedSource_new_def scripted_def)
  obtain s3 where s3: "run_ops [Op_cacheMore, Op_wakeup, Op_cacheMore] s1 = Inr s3"
    and r3: "reads_of (calls (mSource s3)) = [Some 7, None]"
    unfolding s1 by (simp add: model_defs caching_def)
  from rd r q s2 c2 s3 r3 show ?thesis
    by (simp add: caching_def PrefetchedSource_new_def)
qed

text \<open>
  Claim C9. A new cache has the pending seek 0, not the value \<open>-1\<close> that stands for
  no pending seek. So the first \<open>cacheMore\<close> after \<open>start\<close> passes a seek to 0 to
  the source, and in any sequence of operations on a new cache without a seek request the
  reads the source receives are one with a seek to 0, followed by reads without a seek
  option.
\<close>

theorem first_fetch_seeks_to_zero:
  "mSeekTimeUs (PrefetchedSource_new i src) = 0 \<and>
   (start (PrefetchedSource_new i src) params = Inr (OK, s1) \<longrightarrow>
      (\<forall>s2. cacheMore s1 = Inr s2 \<longrightarrow>
            calls (mSource s2) = calls src @ [Call_start params, Call_read (Some 0)] \<and>
            sint (mSeekTimeUs s2) < 0)) \<and>
   (run_ops xs (PrefetchedSource_new i src) = Inr s3 \<and> (\<forall>x \<in> set xs. \<not> seeking x) \<longrightarrow>
      (\<exists>new. calls (mSource s3) = calls src @ new \<and>
             (reads_of new = [] \<or> (\<exists>n. reads_of new = Some 0 # replicate n None))))"
proof (intro conjI impI allI)
  show "mSeekTimeUs (PrefetchedSource_new i src) = 0"
    by (simp add: PrefetchedSource_new_def)
next
  fix s2
  assume st: "start (PrefetchedSource_new i src) params = Inr (OK, s1)" and cm: "cacheMore s1 = Inr s2"
  from st have s1: "mStarted s1" "mSeekTimeUs s1 = 0" "calls (mSource s1) = calls src @ [Call_start params]"
    by (auto simp: start_def invoke_def PrefetchedSource_new_def split: if_splits prod.splits)
  from cm s1 show "calls (mSource s2) = calls src @ [Call_start params, Call_read (Some 0)]"
    by (auto simp: cacheMore_def invoke_def setSeekTo_def updateCacheDuration_l_def
          split: if_splits prod.splits option.splits sum.splits)
  from cm s1 show "sint (mSeekTimeUs s2) < 0"
    by (auto simp: cacheMore_def invoke_def setSeekTo_def updateCacheDuration_l_def
          split: if_splits prod.splits option.splits sum.splits)
next
  assume "run_ops xs (PrefetchedSource_new i src) = Inr s3 \<and> (\<forall>x \<in> set xs. \<not> seeking x)"
  with run_ops_reads [of xs "PrefetchedSource_new i src" s3]
  show "\<exists>new. calls (mSource s3) = calls src @ new \<and>
             (reads_of new = [] \<or> (\<exists>n. reads_of new = Some 0 # replicate n None))"
    by (auto simp: PrefetchedSource_new_def)
qed

theorem first_fetch_seeks_to_zero_witness:
  "\<exists>s1 s2 s3.
      start (PrefetchedSource_new 0 (scripted [(OK, None), (OK, Some (sample 5)), (OK, Some (sample 9))])) None
        = Inr (OK, s1) \<and>
      cacheMore s1 = Inr s2 \<and> calls (mSource s2) = [Call_start None, Call_read (Some 0)] \<and>
      run_ops [Op_start None, Op_cacheMore, Op_read None, Op_cacheMore]
        (PrefetchedSource_new 0 (scripted [(OK, None), (OK, Some (sample 5)), (OK, Some (sample 9))])) = Inr s3 \<and>
      reads_of (calls (mSource s3)) = [Some 0, None]"
proof -
  let ?src = "scripted [(OK, None), (OK, Some (sample 5)), (OK, Some (sample 9))]"
  let ?xs = "[Op_start None, Op_cacheMore, Op_read None, Op_cacheMore]"
  obtain s1 where s1: "start (PrefetchedSource_new 0 ?src) None = Inr (OK, s1)"
    by (simp add: model_defs)
  obtain s2 where s2: "cacheMore s1 = Inr s2"
    using s1 by (auto simp add: model_defs)
  obtain s3 where s3: "run_ops ?xs (PrefetchedSource_new 0 ?src) = Inr s3"
    by (simp add: model_defs)
  then have r3: "reads_of (calls (mSource s3)) = [Some 0, None]"
    by (auto simp add: model_defs)
  have ns: "\<forall>x \<in> set ?xs. \<not> seeking x" by (simp add: seeking_def)
  from first_fetch_seeks_to_zero [of 0 ?src None s1 ?xs s3] s1 s2 s3 ns
  have "calls (mSource s2) = calls ?src @ [Call_start None, Call_read (Some 0)]"
    by blast
  then have "calls (mSource s2) = [Call_start None, Call_read (Some 0)]"
    by (simp add: scripted_def)
  with s1 s2 s3 r3 show ?thesis by blast
qed

subsection \<open>A failing source\<close>

text \<open>
  Claim C5. When the \<open>read\<close> of the underlying source reports a status other than
  \<open>OK\<close>, \<open>cacheMore\<close> returns normally: the end-of-stream flag is set, the
  condition is signalled once, the queue is untouched, and the source has received
  exactly one more call. The cache is then not eligible. A worker cycle that selected the
  cache ends normally with only that entry of the registry changed, and the worker thread
  goes on to its next pass.
\<close>

theorem fetch_failure_is_absorbed:
  assumes "mStarted s"
    and "options = (if 0 \<le> sint (mSeekTimeUs s) then Some (mSeekTimeUs s) else None)"
    and "respond (mSource s) (calls (mSource s)) (Call_read options) = (err, buffer)"
    and "err \<noteq> OK"
  shows "\<exists>s'. cacheMore s = Inr s' \<and>
           mReachedEOS s' \<and> mCondition s' = Suc (mCondition s) \<and>
           mCachedBuffers s' = mCachedBuffers s \<and>
           calls (mSource s') = calls (mSource s) @ [Call_read options] \<and>
           \<not> eligible s' \<and>
           s' = s\<lparr>mSource := mSource s', mSeekTimeUs := mSeekTimeUs s', mReachedEOS := True,
                  mCondition := Suc (mCondition s)\<rparr> \<and>
           (\<forall>p d k. threadFunc_scan 0 (mSources p) (- 1, - 1, None) = (d, int k, Some s) \<longrightarrow>
                 threadFunc_cycle p = Inr (p\<lparr>mSources := (mSources p)[k := Some s']\<rparr>)) \<and>
           (\<forall>p d k others rest.
                 \<not> mDone p \<and>
                 threadFunc_scan 0 (mSources (others p)) (- 1, - 1, None) = (d, int k, Some s) \<longrightarrow>
                 threadFunc (others # rest) p =
                   threadFunc rest ((others p)\<lparr>mSources := (mSources (others p))[k := Some s']\<rparr>))"
proof -
  let ?src = "(mSource s)\<lparr>calls := calls (mSource s) @ [Call_read options]\<rparr>"
  let ?s' = "if 0 \<le> sint (mSeekTimeUs s)
             then s\<lparr>mSeekTimeUs := - 1, mSource := ?src, mReachedEOS := True, mCondition := Suc (mCondition s)\<rparr>
             else s\<lparr>mSource := ?src, mReachedEOS := True, mCondition := Suc (mCondition s)\<rparr>"
  have cm: "cacheMore s = Inr ?s'"
    using assms by (cases "0 \<le> sint (mSeekTimeUs s)") (simp_all add: cacheMore_def invoke_def setSeekTo_def)
  have cyc: "threadFunc_cycle p = Inr (p\<lparr>mSources := (mSources p)[k := Some ?s']\<rparr>)"
    if "threadFunc_scan 0 (mSources p) (- 1, - 1, None) = (d, int k, Some s)" for p d k
    using that cm by (simp add: threadFunc_cycle_def)
  have loop: "threadFunc (others # rest) p =
                   threadFunc rest ((others p)\<lparr>mSources := (mSources (others p))[k := Some ?s']\<rparr>)"
    if "\<not> mDone p \<and> threadFunc_scan 0 (mSources (others p)) (- 1, - 1, None) = (d, int k, Some s)"
    for p d k others rest
    using that cyc [of "others p" d k] by simp
  have props: "mReachedEOS ?s' \<and> mCondition ?s' = Suc (mCondition s) \<and>
           mCachedBuffers ?s' = mCachedBuffers s \<and>
           calls (mSource ?s') = calls (mSource s) @ [Call_read options] \<and>
           \<not> eligible ?s' \<and>
           ?s' = s\<lparr>mSource := mSource ?s', mSeekTimeUs := mSeekTimeUs ?s', mReachedEOS := True,
                  mCondition := Suc (mCondition s)\<rparr>"
    by (simp add: eligible_def)
  from cm cyc loop props show ?thesis
    by (intro exI [of _ ?s']) blast
qed

theorem fetch_failure_is_absorbed_witness:
  "\<exists>p1. threadFunc_cycle two_caches = Inr p1 \<and>
      (\<exists>s'. mSources p1 = [Some s', Some (caching 1 3000000)] \<and> mReachedEOS s' \<and>
            mCachedBuffers s' = [] \<and> mCondition s' = 1 \<and>
            calls (mSource s') = [Call_start None, Call_read (Some 0)]) \<and>
      fst (snd (threadFunc_scan 0 (mSources p1) (- 1, - 1, None))) = 1"
proof -
  let ?s = "failing 0"
  have a: "mStarted ?s" "Some 0 = (if 0 \<le> sint (mSeekTimeUs ?s) then Some (mSeekTimeUs ?s) else None)"
    "respond (mSource ?s) (calls (mSource ?s)) (Call_read (Some 0)) = (ERROR_OTHER 5, None)"
    "ERROR_OTHER 5 \<noteq> OK"
    by (simp_all add: failing_def PrefetchedSource_new_def scripted_def)
  have scan: "threadFunc_scan 0 (mSources two_caches) (- 1, - 1, None) = (0, int 0, Some ?s)"
    by (simp add: two_caches_def failing_def caching_def PrefetchedSource_new_def
        getCacheDurationUs_def kMaxCacheDurationUs_def)
  from fetch_failure_is_absorbed [OF a] scan
  obtain s' where s': "mReachedEOS s'" "mCondition s' = Suc (mCondition ?s)"
    "mCachedBuffers s' = mCachedBuffers ?s"
    "calls (mSource s') = calls (mSource ?s) @ [Call_read (Some 0)]"
    and cyc: "threadFunc_cycle two_caches = Inr (two_caches\<lparr>mSources := (mSources two_caches)[0 := Some s']\<rparr>)"
    by blast
  let ?p1 = "two_caches\<lparr>mSources := (mSources two_caches)[0 := Some s']\<rparr>"
  have 1: "mSources ?p1 = [Some s', Some (caching 1 3000000)]"
    by (simp add: two_caches_def)
  from s' have 2: "mCachedBuffers s' = []" "mCondition s' = 1"
    "calls (mSource s') = [Call_start None, Call_read (Some 0)]"
    by (simp_all add: failing_def PrefetchedSource_new_def)
  from s'(1) have 3: "fst (snd (threadFunc_scan 0 (mSources ?p1) (- 1, - 1, None))) = 1"
    by (simp add: 1 getCacheDurationUs_def kMaxCacheDurationUs_def caching_def PrefetchedSource_new_def)
  from cyc 1 2 3 s'(1) show ?thesis by (intro exI [of _ ?p1]) simp
qed

subsection \<open>The scan of the worker thread\<close>

lemma sint_kMax: "sint kMaxCacheDurationUs = 10000000"
  by (simp add: kMaxCacheDurationUs_def)

lemma eligible_getCacheDurationUs:
  "eligible c \<longleftrightarrow> (fst (getCacheDurationUs c) \<and> \<not> sint kMaxCacheDurationUs \<le> sint (snd (getCacheDurationUs c)))"
  by (auto simp: eligible_def getCacheDurationUs_def sint_kMax)

lemma eligible_at_snoc:
  "eligible_at (pre @ [w]) j \<longleftrightarrow> eligible_at pre j \<or> (j = length pre \<and> (\<exists>c. w = Some c \<and> eligible c))"
  by (auto simp: eligible_at_def nth_append split: option.splits)

lemma eligible_at_less: "eligible_at pre j \<Longrightarrow> j < length pre"
  by (simp add: eligible_at_def)

lemma duration_at_snoc_old: "j < length pre \<Longrightarrow> duration_at (pre @ [w]) j = duration_at pre j"
  by (simp add: duration_at_def nth_append)

lemma duration_at_snoc_new: "duration_at (pre @ [Some c]) (length pre) = sint (mCacheDurationUs c)"
  by (simp add: duration_at_def)

text \<open>
  The index of a cache is its position in the registry: \<open>addSource\<close> appends the new
  cache with the length of the registry as its index, and no operation changes the index.
\<close>

lemma addSource_index:
  "addSource p source = (c, p1) \<Longrightarrow>
     mIndex c = length (mSources p) \<and> mSources p1 = mSources p @ [Some c]"
  by (auto simp: addSource_def PrefetchedSource_new_def Let_def)

lemma apply_op_index: "apply_op x s = Inr s1 \<Longrightarrow> mIndex s1 = mIndex s"
proof (cases x)
  case (Op_start params)
  assume "apply_op x s = Inr s1"
  with Op_start show ?thesis
    by (auto simp: start_def invoke_def split: if_splits prod.splits)
next
  case Op_stop
  assume "apply_op x s = Inr s1"
  with Op_stop show ?thesis
    by (auto simp: stop_def invoke_def clearCache_l_eq split: if_splits prod.splits)
next
  case (Op_read options)
  assume "apply_op x s = Inr s1"
  with Op_read obtain r s0 where "read_seek s options = Inr s0" and "read_wakeup s0 = Inr (r, s1)"
    by (cases "read_seek s options"; cases "read s options") (auto simp: read_def)
  then show ?thesis
    by (auto simp: read_seek_eq read_wakeup_def updateCacheDuration_l_def
        split: if_splits option.splits list.splits sum.splits)
next
  case Op_wakeup
  assume "apply_op x s = Inr s1"
  with Op_wakeup show ?thesis
    by (auto simp: read_wakeup_def updateCacheDuration_l_def
        split: if_splits option.splits list.splits sum.splits)
next
  case Op_cacheMore
  assume "apply_op x s = Inr s1"
  with Op_cacheMore show ?thesis
    by (auto simp: cacheMore_def invoke_def setSeekTo_def updateCacheDuration_l_def
        split: if_splits prod.splits option.splits sum.splits)
next
  case Op_onPrefetcherStopped
  assume "apply_op x s = Inr s1"
  with Op_onPrefetcherStopped show ?thesis by (auto simp: onPrefetcherStopped_def)
qed

text \<open>
  One pass of the loop body keeps \<open>least_buffered\<close>, in each of its three outcomes.
\<close>

lemma scan_step_skip:
  assumes "least_buffered pre acc" and "\<not> (\<exists>c. w = Some c \<and> eligible c)"
  shows "least_buffered (pre @ [w]) acc"
proof -
  have e: "\<And>j. eligible_at (pre @ [w]) j = eligible_at pre j"
    using assms(2) by (auto simp: eligible_at_snoc)
  have d: "\<And>j. eligible_at pre j \<Longrightarrow> duration_at (pre @ [w]) j = duration_at pre j"
    by (simp add: duration_at_snoc_old eligible_at_less)
  have n: "\<And>j. eligible_at pre j \<Longrightarrow> (pre @ [w]) ! j = pre ! j"
    by (simp add: nth_append eligible_at_less)
  obtain dd mi ms where acc: "acc = (dd, mi, ms)" by (cases acc)
  show ?thesis
  proof (cases "\<exists>j. eligible_at pre j")
    case False
    with assms(1) show ?thesis by (simp add: least_buffered_def e acc)
  next
    case True
    with assms(1) acc obtain k where k: "mi = int k" "eligible_at pre k" "ms = pre ! k"
      "sint dd = duration_at pre k" "Some dd = map_option mCacheDurationUs (pre ! k)"
      "\<forall>j. eligible_at pre j \<longrightarrow> duration_at pre k \<le> duration_at pre j \<and>
                        (duration_at pre j = duration_at pre k \<longrightarrow> k \<le> j)"
      by (auto simp: least_buffered_def)
    have "\<exists>k. mi = int k \<and> eligible_at (pre @ [w]) k \<and> ms = (pre @ [w]) ! k \<and> sint dd = duration_at (pre @ [w]) k \<and>
                 Some dd = map_option mCacheDurationUs ((pre @ [w]) ! k) \<and>
                 (\<forall>j. eligible_at (pre @ [w]) j \<longrightarrow>
                        duration_at (pre @ [w]) k \<le> duration_at (pre @ [w]) j \<and>
                        (duration_at (pre @ [w]) j = duration_at (pre @ [w]) k \<longrightarrow> k \<le> j))"
      using k by (intro exI [of _ k]) (simp add: e d n)
    with True show ?thesis by (auto simp: least_buffered_def acc e)
  qed
qed

lemma scan_step_take:
  assumes "least_buffered pre (dd, mi, ms)" and "eligible c"
    and "mi < 0 \<or> sint (mCacheDurationUs c) < sint dd"
  shows "least_buffered (pre @ [Some c]) (mCacheDurationUs c, int (length pre), Some c)"
proof -
  let ?l = "pre @ [Some c]" and ?n = "length pre"
  have en: "eligible_at ?l ?n" using assms(2) by (simp add: eligible_at_snoc)
  have smaller: "duration_at ?l ?n \<le> duration_at ?l j \<and> (duration_at ?l j = duration_at ?l ?n \<longrightarrow> ?n \<le> j)"
    if j: "eligible_at ?l j" for j
  proof (cases "j = ?n")
    case True then show ?thesis by simp
  next
    case False
    with j have jp: "eligible_at pre j" by (simp add: eligible_at_snoc)
    then have ex: "\<exists>j. eligible_at pre j" ..
    with assms(1) obtain k where k: "mi = int k" "sint dd = duration_at pre k"
      "\<forall>j. eligible_at pre j \<longrightarrow> duration_at pre k \<le> duration_at pre j"
      by (auto simp: least_buffered_def)
    with assms(3) have "sint (mCacheDurationUs c) < duration_at pre k" by simp
    also from k jp have "\<dots> \<le> duration_at pre j" by simp
    finally show ?thesis
      using jp by (simp add: duration_at_snoc_new duration_at_snoc_old eligible_at_less)
  qed
  have "\<exists>k. int ?n = int k \<and> eligible_at ?l k \<and> Some c = ?l ! k \<and>
            sint (mCacheDurationUs c) = duration_at ?l k \<and>
            Some (mCacheDurationUs c) = map_option mCacheDurationUs (?l ! k) \<and>
            (\<forall>j. eligible_at ?l j \<longrightarrow> duration_at ?l k \<le> duration_at ?l j \<and>
                   (duration_at ?l j = duration_at ?l k \<longrightarrow> k \<le> j))"
    using en smaller by (intro exI [of _ ?n]) (simp add: duration_at_snoc_new)
  moreover from en have "\<exists>j. eligible_at ?l j" ..
  ultimately show ?thesis by (simp add: least_buffered_def)
qed

lemma scan_step_keep:
  assumes "least_buffered pre (dd, mi, ms)" and "eligible c"
    and "\<not> (mi < 0 \<or> sint (mCacheDurationUs c) < sint dd)"
  shows "least_buffered (pre @ [Some c]) (dd, mi, ms)"
proof -
  let ?l = "pre @ [Some c]" and ?n = "length pre"
  have en: "eligible_at ?l ?n" using assms(2) by (simp add: eligible_at_snoc)
  have ex: "\<exists>j. eligible_at pre j"
  proof (rule ccontr)
    assume "\<not> ?thesis"
    with assms(1) have "mi = - 1" by (simp add: least_buffered_def)
    with assms(3) show False by simp
  qed
  with assms(1) obtain k where k: "mi = int k" "eligible_at pre k" "ms = pre ! k"
      "sint dd = duration_at pre k" "Some dd = map_option mCacheDurationUs (pre ! k)"
      "\<forall>j. eligible_at pre j \<longrightarrow> duration_at pre k \<le> duration_at pre j \<and>
                        (duration_at pre j = duration_at pre k \<longrightarrow> k \<le> j)"
    by (auto simp: least_buffered_def)
  from k(2) have kn: "k < ?n" by (rule eligible_at_less)
  have best: "duration_at ?l k \<le> duration_at ?l j \<and> (duration_at ?l j = duration_at ?l k \<longrightarrow> k \<le> j)"
    if j: "eligible_at ?l j" for j
  proof (cases "j = ?n")
    case True
    with assms(3) k(4) kn show ?thesis
      by (simp add: duration_at_snoc_new duration_at_snoc_old)
  next
    case False
    with j have jp: "eligible_at pre j" by (simp add: eligible_at_snoc)
    with k(6) kn show ?thesis by (simp add: duration_at_snoc_old eligible_at_less)
  qed
  have "\<exists>k. mi = int k \<and> eligible_at ?l k \<and> ms = ?l ! k \<and> sint dd = duration_at ?l k \<and>
            Some dd = map_option mCacheDurationUs (?l ! k) \<and>
            (\<forall>j. eligible_at ?l j \<longrightarrow> duration_at ?l k \<le> duration_at ?l j \<and>
                   (duration_at ?l j = duration_at ?l k \<longrightarrow> k \<le> j))"
    using k kn best
    by (intro exI [of _ k]) (simp add: eligible_at_snoc duration_at_snoc_old nth_append)
  moreover from en have "\<exists>j. eligible_at ?l j" ..
  ultimately show ?thesis by (simp add: least_buffered_def)
qed

lemma threadFunc_scan_least:
  "least_buffered pre acc \<Longrightarrow> least_buffered (pre @ ws) (threadFunc_scan (length pre) ws acc)"
proof (induction ws arbitrary: pre acc)
  case Nil
  then show ?case by simp
next
  case (Cons w ws)
  obtain dd mi ms where acc: "acc = (dd, mi, ms)" by (cases acc)
  have step: "least_buffered ((pre @ [w]) @ ws) (threadFunc_scan (length (pre @ [w])) ws acc')"
    if "least_buffered (pre @ [w]) acc'" for acc'
    using that by (rule Cons.IH)
  show ?case
  proof (cases w)
    case None
    with Cons.prems have "least_buffered (pre @ [w]) acc" by (intro scan_step_skip) auto
    from step [OF this] None acc show ?thesis by simp
  next
    case (Some c)
    show ?thesis
    proof (cases "eligible c")
      case False
      with Cons.prems Some have "least_buffered (pre @ [w]) acc" by (intro scan_step_skip) auto
      from step [OF this] Some acc False show ?thesis
        by (auto simp: eligible_getCacheDurationUs split: prod.splits)
    next
      case True
      then have g: "getCacheDurationUs c = (True, mCacheDurationUs c)"
        and lt: "\<not> sint kMaxCacheDurationUs \<le> sint (mCacheDurationUs c)"
        by (auto simp: eligible_def getCacheDurationUs_def sint_kMax)
      show ?thesis
      proof (cases "mi < 0 \<or> sint (mCacheDurationUs c) < sint dd")
        case take: True
        from Cons.prems acc True take
        have "least_buffered (pre @ [w]) (mCacheDurationUs c, int (length pre), Some c)"
          unfolding Some by (intro scan_step_take) auto
        from step [OF this] Some acc g lt take show ?thesis by auto
      next
        case keep: False
        from Cons.prems acc True keep
        have "least_buffered (pre @ [w]) (dd, mi, ms)"
          unfolding Some by (intro scan_step_keep) auto
        from step [OF this] Some acc g lt keep show ?thesis by auto
      qed
    qed
  qed
qed

lemma least_buffered_Nil: "least_buffered [] (- 1, - 1, None)"
  by (simp add: least_buffered_def eligible_at_def)

lemma threadFunc_scan_selects: "least_buffered srcs (threadFunc_scan 0 srcs (- 1, - 1, None))"
  using threadFunc_scan_least [OF least_buffered_Nil, of srcs] by simp

text \<open>
  Claim C1. In a worker cycle whose registry holds an eligible cache (started, not at end
  of stream, stored duration below ten seconds), the scan selects one entry: it is
  eligible, no eligible entry has a smaller duration, and every eligible entry of the same
  duration has a higher or equal index; the cycle calls \<open>cacheMore\<close> on that cache and
  touches no other entry. With no eligible cache nothing is selected and the cycle
  changes nothing. Whatever is selected is started, not at end of stream, and below the
  ceiling.
\<close>

theorem worker_selects_least_buffered:
  assumes "threadFunc_scan 0 (mSources p) (- 1, - 1, None) = (d, mi, ms)"
  shows "((\<exists>j. eligible_at (mSources p) j) \<longrightarrow>
            (\<exists>k. mi = int k \<and> eligible_at (mSources p) k \<and> ms = mSources p ! k \<and>
                 sint d = duration_at (mSources p) k \<and>
                 (\<forall>j. eligible_at (mSources p) j \<longrightarrow>
                        duration_at (mSources p) k \<le> duration_at (mSources p) j \<and>
                        (duration_at (mSources p) j = duration_at (mSources p) k \<longrightarrow> k \<le> j)) \<and>
                 threadFunc_cycle p =
                   (case cacheMore (the ms) of
                      Inl f \<Rightarrow> Inl f
                    | Inr c \<Rightarrow> Inr (p\<lparr>mSources := (mSources p)[k := Some c]\<rparr>)))) \<and>
         (\<not> (\<exists>j. eligible_at (mSources p) j) \<longrightarrow> mi < 0 \<and> threadFunc_cycle p = Inr p) \<and>
         (0 \<le> mi \<longrightarrow>
            (\<exists>c. ms = Some c \<and> nat mi < length (mSources p) \<and> mSources p ! nat mi = Some c \<and>
                 mStarted c \<and> \<not> mReachedEOS c \<and> sint (mCacheDurationUs c) < 10000000))"
proof -
  have lb: "least_buffered (mSources p) (d, mi, ms)"
    using threadFunc_scan_selects [of "mSources p"] assms by simp
  have none: "mi < 0 \<and> threadFunc_cycle p = Inr p" if "\<not> (\<exists>j. eligible_at (mSources p) j)"
  proof -
    from lb that have "mi = - 1" by (simp add: least_buffered_def)
    with assms show ?thesis by (simp add: threadFunc_cycle_def)
  qed
  have some: "\<exists>k. mi = int k \<and> eligible_at (mSources p) k \<and> ms = mSources p ! k \<and>
                 sint d = duration_at (mSources p) k \<and>
                 (\<forall>j. eligible_at (mSources p) j \<longrightarrow>
                        duration_at (mSources p) k \<le> duration_at (mSources p) j \<and>
                        (duration_at (mSources p) j = duration_at (mSources p) k \<longrightarrow> k \<le> j)) \<and>
                 threadFunc_cycle p =
                   (case cacheMore (the ms) of
                      Inl f \<Rightarrow> Inl f
                    | Inr c \<Rightarrow> Inr (p\<lparr>mSources := (mSources p)[k := Some c]\<rparr>))"
    if "\<exists>j. eligible_at (mSources p) j"
  proof -
    from lb that obtain k where k: "mi = int k" "eligible_at (mSources p) k" "ms = mSources p ! k"
      "sint d = duration_at (mSources p) k"
      "\<forall>j. eligible_at (mSources p) j \<longrightarrow>
                        duration_at (mSources p) k \<le> duration_at (mSources p) j \<and>
                        (duration_at (mSources p) j = duration_at (mSources p) k \<longrightarrow> k \<le> j)"
      by (auto simp: least_buffered_def)
    from k(2,3) obtain c where c: "ms = Some c"
      by (auto simp: eligible_at_def split: option.splits)
    from assms k(1) c have "threadFunc_cycle p =
                   (case cacheMore (the ms) of
                      Inl f \<Rightarrow> Inl f
                    | Inr c \<Rightarrow> Inr (p\<lparr>mSources := (mSources p)[k := Some c]\<rparr>))"
      by (simp add: threadFunc_cycle_def cong: sum.case_cong)
    with k show ?thesis by blast
  qed
  have sel: "\<exists>c. ms = Some c \<and> nat mi < length (mSources p) \<and> mSources p ! nat mi = Some c \<and>
                 mStarted c \<and> \<not> mReachedEOS c \<and> sint (mCacheDurationUs c) < 10000000"
    if "0 \<le> mi"
  proof -
    from that none have "\<exists>j. eligible_at (mSources p) j" by force
    from some [OF this] obtain k where "mi = int k" "eligible_at (mSources p) k" "ms = mSources p ! k"
      by blast
    then show ?thesis
      by (auto simp: eligible_at_def eligible_def split: option.splits)
  qed
  from none some sel show ?thesis by blast
qed

lemmas example_defs = caching_def registry_def eligible_def eligible_at_def duration_at_def
  getCacheDurationUs_def kMaxCacheDurationUs_def

lemma registry_scan:
  "threadFunc_scan 0 (mSources registry) (- 1, - 1, None) = (3000000, 3, Some (caching 3 3000000))"
  by (simp add: registry_def getCacheDurationUs_def kMaxCacheDurationUs_def caching_def PrefetchedSource_new_def)

theorem worker_selects_least_buffered_witness:
  "threadFunc_scan 0 (mSources registry) (- 1, - 1, None) = (3000000, 3, Some (caching 3 3000000)) \<and>
   eligible_at (mSources registry) 2 \<and> eligible_at (mSources registry) 3 \<and>
   eligible_at (mSources registry) 4 \<and>
   duration_at (mSources registry) 3 \<le> duration_at (mSources registry) 2 \<and>
   duration_at (mSources registry) 3 = duration_at (mSources registry) 4 \<and>
   (\<exists>p. threadFunc_cycle registry = Inr p \<and> length (mSources p) = 7)"
proof -
  have e: "eligible_at (mSources registry) 2" "eligible_at (mSources registry) 3"
    "eligible_at (mSources registry) 4"
    by (simp_all add: example_defs PrefetchedSource_new_def)
  then have ex: "\<exists>j. eligible_at (mSources registry) j" by blast
  have d4: "duration_at (mSources registry) 3 = duration_at (mSources registry) 4"
    by (simp add: example_defs PrefetchedSource_new_def)
  have cm: "\<exists>c. cacheMore (caching 3 3000000) = Inr c"
    by (simp add: model_defs caching_def)
  from worker_selects_least_buffered [OF registry_scan] ex
  obtain k where k: "(3::int) = int k"
    "\<forall>j. eligible_at (mSources registry) j \<longrightarrow>
                        duration_at (mSources registry) k \<le> duration_at (mSources registry) j \<and>
                        (duration_at (mSources registry) j = duration_at (mSources registry) k \<longrightarrow> k \<le> j)"
    "threadFunc_cycle registry =
                   (case cacheMore (the (Some (caching 3 3000000))) of
                      Inl f \<Rightarrow> Inl f
                    | Inr c \<Rightarrow> Inr (registry\<lparr>mSources := (mSources registry)[k := Some c]\<rparr>))"
    by blast
  from k(1) have k3: "k = 3" by simp
  have "length (mSources registry) = 7" by (simp add: registry_def)
  with k(3) cm have cyc: "\<exists>p. threadFunc_cycle registry = Inr p \<and> length (mSources p) = 7"
    by auto
  from k(2) e(1) have "duration_at (mSources registry) 3 \<le> duration_at (mSources registry) 2"
    unfolding k3 by blast
  with registry_scan e d4 cyc show ?thesis by simp
qed

subsection \<open>Warming up\<close>

lemma threadFunc_scan_proj:
  "fst (threadFunc_scan i ws (d, mi, ms)) = fst (getCachedDurationUs_scan i ws (d, mi)) \<and>
   fst (snd (threadFunc_scan i ws (d, mi, ms))) = snd (getCachedDurationUs_scan i ws (d, mi))"
  by (induction ws arbitrary: i d mi ms) (simp_all add: case_prod_beta split: option.splits)

lemma getCachedDurationUs_scan_eq:
  "threadFunc_scan i ws (d, mi, ms) = (d', mi', ms') \<Longrightarrow> getCachedDurationUs_scan i ws (d, mi) = (d', mi')"
  using threadFunc_scan_proj [of i ws d mi ms] by (simp add: prod_eq_iff)

lemma getCachedDurationUs_none:
  assumes "\<not> (\<exists>j. eligible_at (mSources p) j)"
  shows "getCachedDurationUs p = (0, True)"
proof -
  from threadFunc_scan_selects [of "mSources p"] assms
  have "threadFunc_scan 0 (mSources p) (- 1, - 1, None) = (- 1, - 1, None)"
    by (simp add: least_buffered_def)
  then show ?thesis
    by (simp add: getCachedDurationUs_def getCachedDurationUs_scan_eq)
qed

lemma getCachedDurationUs_some:
  assumes "\<exists>j. eligible_at (mSources p) j"
  shows "\<exists>k d. eligible_at (mSources p) k \<and> sint d = duration_at (mSources p) k \<and>
           (\<forall>j. eligible_at (mSources p) j \<longrightarrow> duration_at (mSources p) k \<le> duration_at (mSources p) j) \<and>
           getCachedDurationUs p = (if sint d < 0 then 0 else d, sint d < 0)"
proof -
  obtain d mi ms where scan: "threadFunc_scan 0 (mSources p) (- 1, - 1, None) = (d, mi, ms)"
    by (cases "threadFunc_scan 0 (mSources p) (- 1, - 1, None)")
  with threadFunc_scan_selects [of "mSources p"] assms
  obtain k where "eligible_at (mSources p) k" "sint d = duration_at (mSources p) k"
    "\<forall>j. eligible_at (mSources p) j \<longrightarrow> duration_at (mSources p) k \<le> duration_at (mSources p) j"
    by (auto simp: least_buffered_def)
  moreover from scan have "getCachedDurationUs p = (if sint d < 0 then 0 else d, sint d < 0)"
    by (simp add: getCachedDurationUs_def getCachedDurationUs_scan_eq)
  ultimately show ?thesis by blast
qed

text \<open>
  \<open>prepare\<close> returns, and then with \<open>OK\<close>, exactly when one of its polls finds
  the prefetcher warm. A prefetcher is warm when no cache is eligible, when the least
  duration among the eligible caches is two seconds or more, and also when that least
  duration is negative.
\<close>

lemma prepare_returns_iff: "prepare ps = Some r \<longleftrightarrow> r = OK \<and> (\<exists>p \<in> set ps. warm p)"
  by (induction ps) (auto simp: warm_def split: prod.splits)

lemma warm_iff:
  "warm p \<longleftrightarrow>
     (\<not> (\<exists>j. eligible_at (mSources p) j)) \<or>
     (\<exists>k. eligible_at (mSources p) k \<and>
          (\<forall>j. eligible_at (mSources p) j \<longrightarrow> duration_at (mSources p) k \<le> duration_at (mSources p) j) \<and>
          (2000000 \<le> duration_at (mSources p) k \<or> duration_at (mSources p) k < 0))"
proof (cases "\<exists>j. eligible_at (mSources p) j")
  case False
  then show ?thesis by (simp add: warm_def getCachedDurationUs_none)
next
  case True
  from getCachedDurationUs_some [OF this] obtain k d where k: "eligible_at (mSources p) k"
    "sint d = duration_at (mSources p) k"
    "\<forall>j. eligible_at (mSources p) j \<longrightarrow> duration_at (mSources p) k \<le> duration_at (mSources p) j"
    "getCachedDurationUs p = (if sint d < 0 then 0 else d, sint d < 0)"
    by blast
  have w: "warm p \<longleftrightarrow> (2000000 \<le> duration_at (mSources p) k \<or> duration_at (mSources p) k < 0)"
    using k(2,4) by (auto simp: warm_def)
  show ?thesis
  proof
    assume "warm p"
    with w k show "(\<not> (\<exists>j. eligible_at (mSources p) j)) \<or>
     (\<exists>k. eligible_at (mSources p) k \<and>
          (\<forall>j. eligible_at (mSources p) j \<longrightarrow> duration_at (mSources p) k \<le> duration_at (mSources p) j) \<and>
          (2000000 \<le> duration_at (mSources p) k \<or> duration_at (mSources p) k < 0))"
      by blast
  next
    assume "(\<not> (\<exists>j. eligible_at (mSources p) j)) \<or>
     (\<exists>k. eligible_at (mSources p) k \<and>
          (\<forall>j. eligible_at (mSources p) j \<longrightarrow> duration_at (mSources p) k \<le> duration_at (mSources p) j) \<and>
          (2000000 \<le> duration_at (mSources p) k \<or> duration_at (mSources p) k < 0))"
    with True obtain k' where k': "eligible_at (mSources p) k'"
      "\<forall>j. eligible_at (mSources p) j \<longrightarrow> duration_at (mSources p) k' \<le> duration_at (mSources p) j"
      "2000000 \<le> duration_at (mSources p) k' \<or> duration_at (mSources p) k' < 0"
      by blast
    from k(1,3) k'(1,2) have "duration_at (mSources p) k' = duration_at (mSources p) k"
      by (simp add: order_antisym)
    with k'(3) w show "warm p" by simp
  qed
qed

text \<open>
  As long as no eligible cache has a negative stored duration, \<open>prepare\<close> returns only
  when no cache is eligible, and then no more data and the duration 0 are reported, or
  when the least duration among the eligible caches is at least two seconds (and, being
  eligible, below ten).
\<close>

lemma prepare_returns_nonnegative:
  assumes "prepare ps = Some r"
    and "\<forall>p \<in> set ps. \<forall>j. eligible_at (mSources p) j \<longrightarrow> 0 \<le> duration_at (mSources p) j"
  shows "r = OK \<and>
         (\<exists>p \<in> set ps.
            (\<not> (\<exists>j. eligible_at (mSources p) j) \<and> getCachedDurationUs p = (0, True)) \<or>
            (\<exists>k. eligible_at (mSources p) k \<and>
                 (\<forall>j. eligible_at (mSources p) j \<longrightarrow> duration_at (mSources p) k \<le> duration_at (mSources p) j) \<and>
                 2000000 \<le> duration_at (mSources p) k \<and> duration_at (mSources p) k < 10000000))"
proof -
  from assms(1) obtain p where r: "r = OK" and p: "p \<in> set ps" and w: "warm p"
    by (auto simp: prepare_returns_iff)
  show ?thesis
  proof (cases "\<exists>j. eligible_at (mSources p) j")
    case False
    with p r show ?thesis by (auto simp: getCachedDurationUs_none)
  next
    case True
    with w obtain k where k: "eligible_at (mSources p) k"
      "\<forall>j. eligible_at (mSources p) j \<longrightarrow> duration_at (mSources p) k \<le> duration_at (mSources p) j"
      "2000000 \<le> duration_at (mSources p) k \<or> duration_at (mSources p) k < 0"
      by (auto simp: warm_iff)
    from assms(2) p k(1) have "0 \<le> duration_at (mSources p) k" by blast
    with k(3) have "2000000 \<le> duration_at (mSources p) k" by simp
    moreover from k(1) have "duration_at (mSources p) k < 10000000"
      by (auto simp: eligible_at_def duration_at_def eligible_def split: option.splits)
    ultimately show ?thesis using p r k(1,2) by blast
  qed
qed

text \<open>
  Claim C8 does not hold of the code. \<open>getCachedDurationUs\<close> reports no more data
  when \<open>minCacheDurationUs\<close> is negative, where the scan of \<open>threadFunc\<close> tests
  \<open>minIndex\<close>. After a source has delivered the time stamps 5 and 3, its cache is
  started, not at end of stream, and has the stored duration \<open>-2\<close>, below the ceiling:
  it is eligible and far from two seconds, yet \<open>getCachedDurationUs\<close> reports no more
  data and \<open>prepare\<close> returns at once.
\<close>

theorem prepare_returns_early:
  "\<exists>p. out_of_order = Inr p \<and>
       eligible_at (mSources p) 0 \<and> duration_at (mSources p) 0 = - 2 \<and>
       getCachedDurationUs p = (0, True) \<and> prepare [p] = Some OK"
  by (simp add: out_of_order_def on_cache_def addSource_def Prefetcher_new_def threadFunc_cycle_def
      getCacheDurationUs_def kMaxCacheDurationUs_def getCachedDurationUs_def
      eligible_at_def eligible_def duration_at_def model_defs Let_def)

subsection \<open>Shutdown\<close>

lemma apply_op_stopped:
  assumes "apply_op x s = Inr s'" and "mPrefetcherStopped s"
  shows "mPrefetcherStopped s'"
proof (cases x)
  case (Op_start params)
  with assms show ?thesis by (auto simp: start_def invoke_def split: if_splits prod.splits)
next
  case Op_stop
  with assms show ?thesis
    by (auto simp: stop_def invoke_def clearCache_l_eq split: if_splits prod.splits)
next
  case (Op_read options)
  with assms obtain r s1 where "read_seek s options = Inr s1" and "read_wakeup s1 = Inr (r, s')"
    by (cases "read_seek s options"; cases "read s options") (auto simp: read_def)
  with assms(2) read_wakeup_source [of s1 r s'] show ?thesis
    by (auto simp: read_seek_eq split: if_splits option.splits)
next
  case Op_wakeup
  with assms obtain r where "read_wakeup s = Inr (r, s')" by (cases "read_wakeup s") auto
  with assms(2) read_wakeup_source [of s r s'] show ?thesis by simp
next
  case Op_cacheMore
  with assms show ?thesis
    by (auto simp: cacheMore_def invoke_def setSeekTo_def updateCacheDuration_l_def
          split: if_splits prod.splits option.splits sum.splits)
next
  case Op_onPrefetcherStopped
  with assms show ?thesis by (auto simp: onPrefetcherStopped_def)
qed

lemma run_ops_stopped:
  "run_ops xs s = Inr s' \<Longrightarrow> mPrefetcherStopped s \<Longrightarrow> mPrefetcherStopped s'"
proof (induction xs arbitrary: s)
  case Nil
  then show ?case by simp
next
  case (Cons x xs)
  from Cons.prems(1) obtain s1 where "apply_op x s = Inr s1" and "run_ops xs s1 = Inr s'"
    by (auto split: sum.splits)
  with Cons.IH Cons.prems(2) show ?case by (blast dest: apply_op_stopped)
qed

lemma threadFunc_returns_exit:
  "threadFunc es p = Inr (Some p1) \<Longrightarrow> \<exists>p0. p1 = threadFunc_exit p0"
  by (induction es arbitrary: p) (auto split: if_splits sum.splits)

lemma threadFunc_exit_entry:
  "j < length (mSources p) \<Longrightarrow>
     mSources (threadFunc_exit p) ! j =
       (case mSources p ! j of
          None \<Rightarrow> None
        | Some c \<Rightarrow> Some (c\<lparr>mPrefetcherStopped := True, mCondition := Suc (mCondition c)\<rparr>))"
  by (simp add: threadFunc_exit_def onPrefetcherStopped_def split: option.splits)

lemma threadFunc_exit_stopped:
  "Some c \<in> set (mSources (threadFunc_exit p)) \<Longrightarrow> mPrefetcherStopped c"
  by (auto simp: threadFunc_exit_def onPrefetcherStopped_def map_option_case split: option.splits)

lemma stopped_read:
  assumes "mPrefetcherStopped c"
  shows "read c options \<noteq> Inr (Waiting, c2)"
    and "mStarted c \<Longrightarrow> mCachedBuffers c = [] \<Longrightarrow> \<forall>t. options = Some (Some t) \<longrightarrow> 0 \<le> sint t \<Longrightarrow>
           \<exists>c2. read c options = Inr (Returned ERROR_END_OF_STREAM None, c2)"
    and "mStarted c \<Longrightarrow> mCachedBuffers c = b # bs \<Longrightarrow> options = None \<or> options = Some None \<Longrightarrow>
           (case read c options of
              Inl f \<Rightarrow> 2 \<le> length bs \<and> (timestamp (hd bs) = None \<or> timestamp (last bs) = None)
            | Inr (r, c2) \<Rightarrow> r = Returned OK (Some b) \<and> mCachedBuffers c2 = bs)"
proof -
  show "read c options \<noteq> Inr (Waiting, c2)"
    using assms
    by (auto simp: read_def read_seek_eq read_wakeup_def read_wait_def
        split: if_splits option.splits list.splits sum.splits)
  show "\<exists>c2. read c options = Inr (Returned ERROR_END_OF_STREAM None, c2)"
    if "mStarted c" "mCachedBuffers c = []" "\<forall>t. options = Some (Some t) \<longrightarrow> 0 \<le> sint t"
    using assms that
    by (auto simp: read_def read_seek_eq read_wakeup_def read_wait_def split: option.splits)
  show "case read c options of
              Inl f \<Rightarrow> 2 \<le> length bs \<and> (timestamp (hd bs) = None \<or> timestamp (last bs) = None)
            | Inr (r, c2) \<Rightarrow> r = Returned OK (Some b) \<and> mCachedBuffers c2 = bs"
    if "mStarted c" "mCachedBuffers c = b # bs" "options = None \<or> options = Some None"
  proof -
    from that have "read c options = read_wakeup c"
      by (auto simp: read_def read_seek_eq)
    moreover from updateCacheDuration_l_cases [of "c\<lparr>mCachedBuffers := bs\<rparr>"] that(2)
    have "case read_wakeup c of
              Inl f \<Rightarrow> 2 \<le> length bs \<and> (timestamp (hd bs) = None \<or> timestamp (last bs) = None)
            | Inr (r, c2) \<Rightarrow> r = Returned OK (Some b) \<and> mCachedBuffers c2 = bs"
      by (cases "updateCacheDuration_l (c\<lparr>mCachedBuffers := bs\<rparr>)")
         (auto simp: read_wakeup_def read_wait_def dest: arg_cong [where f = mCachedBuffers])
    ultimately show ?thesis by simp
  qed
qed

lemma list_of_three: "length l = 3 \<Longrightarrow> l = [l ! 0, l ! 1, l ! 2]"
  by (auto simp: length_Suc_conv numeral_3_eq_3)

text \<open>
  Claim C6. The code the worker runs after its loop sets \<open>mThreadExited\<close>, and in
  every cache that still resolves it sets \<open>mPrefetcherStopped\<close> and signals the
  condition once; so when the worker thread has returned, every resolvable cache has the
  flag. No operation on a cache clears the flag. On a cache with the flag \<open>read\<close>
  never waits: on a started cache with an empty queue (a cache that was never fetched has
  one) it returns \<open>ERROR_END_OF_STREAM\<close>, and with a queue \<open>b # bs\<close> and no seek
  request it returns \<open>b\<close> (or fails the assertion of claim C10).
\<close>

theorem shutdown_ends_every_wait:
  "(mThreadExited (threadFunc_exit p) \<and>
    length (mSources (threadFunc_exit p)) = length (mSources p) \<and>
    (\<forall>j < length (mSources p).
       mSources (threadFunc_exit p) ! j =
         (case mSources p ! j of
            None \<Rightarrow> None
          | Some c \<Rightarrow> Some (c\<lparr>mPrefetcherStopped := True, mCondition := Suc (mCondition c)\<rparr>)))) \<and>
   (threadFunc es p = Inr (Some p1) \<longrightarrow>
      mThreadExited p1 \<and> (\<forall>c. Some c \<in> set (mSources p1) \<longrightarrow> mPrefetcherStopped c)) \<and>
   (mPrefetcherStopped c \<and> run_ops xs c = Inr c1 \<longrightarrow>
      mPrefetcherStopped c1 \<and>
      read c1 options \<noteq> Inr (Waiting, c2) \<and>
      (mStarted c1 \<and> mCachedBuffers c1 = [] \<and> (\<forall>t. options = Some (Some t) \<longrightarrow> 0 \<le> sint t) \<longrightarrow>
         (\<exists>c2. read c1 options = Inr (Returned ERROR_END_OF_STREAM None, c2))) \<and>
      (mStarted c1 \<and> mCachedBuffers c1 = b # bs \<and> (options = None \<or> options = Some None) \<longrightarrow>
         (case read c1 options of
            Inl f \<Rightarrow> 2 \<le> length bs \<and> (timestamp (hd bs) = None \<or> timestamp (last bs) = None)
          | Inr (r, c2) \<Rightarrow> r = Returned OK (Some b) \<and> mCachedBuffers c2 = bs)))"
proof (intro conjI impI allI)
  show "mThreadExited (threadFunc_exit p)"
    and "length (mSources (threadFunc_exit p)) = length (mSources p)"
    by (simp_all add: threadFunc_exit_def)
  show "mSources (threadFunc_exit p) ! j =
         (case mSources p ! j of
            None \<Rightarrow> None
          | Some c \<Rightarrow> Some (c\<lparr>mPrefetcherStopped := True, mCondition := Suc (mCondition c)\<rparr>))"
    if "j < length (mSources p)" for j
    using that by (rule threadFunc_exit_entry)
next
  assume "threadFunc es p = Inr (Some p1)"
  then obtain p0 where p1: "p1 = threadFunc_exit p0" by (blast dest: threadFunc_returns_exit)
  then show "mThreadExited p1" by (simp add: threadFunc_exit_def)
  show "mPrefetcherStopped c" if "Some c \<in> set (mSources p1)" for c
    using that unfolding p1 by (rule threadFunc_exit_stopped)
next
  assume a: "mPrefetcherStopped c \<and> run_ops xs c = Inr c1"
  then show st: "mPrefetcherStopped c1" by (blast intro: run_ops_stopped)
  from stopped_read(1) [OF st] show "read c1 options \<noteq> Inr (Waiting, c2)" .
  show "\<exists>c2. read c1 options = Inr (Returned ERROR_END_OF_STREAM None, c2)"
    if "mStarted c1 \<and> mCachedBuffers c1 = [] \<and> (\<forall>t. options = Some (Some t) \<longrightarrow> 0 \<le> sint t)"
    using stopped_read(2) [OF st] that by blast
  show "case read c1 options of
            Inl f \<Rightarrow> 2 \<le> length bs \<and> (timestamp (hd bs) = None \<or> timestamp (last bs) = None)
          | Inr (r, c2) \<Rightarrow> r = Returned OK (Some b) \<and> mCachedBuffers c2 = bs"
    if "mStarted c1 \<and> mCachedBuffers c1 = b # bs \<and> (options = None \<or> options = Some None)"
    using stopped_read(3) [OF st] that by blast
qed

theorem shutdown_ends_every_wait_witness:
  "\<exists>p1 c0 c2. threadFunc [] shutting_down = Inr (Some p1) \<and> mThreadExited p1 \<and>
      mSources p1 = [Some c0, None, Some c2] \<and>
      mCachedBuffers c0 = [] \<and> mCondition c0 = 1 \<and>
      (\<exists>c. read c0 None = Inr (Returned ERROR_END_OF_STREAM None, c)) \<and>
      (\<exists>c. read c2 None = Inr (Returned OK (Some (copy_of (sample 0))), c) \<and>
           mCachedBuffers c = [copy_of (sample 4)])"
proof -
  let ?n = "(PrefetchedSource_new 0 (scripted []))\<lparr>mStarted := True\<rparr>"
  let ?c0 = "?n\<lparr>mPrefetcherStopped := True, mCondition := Suc (mCondition ?n)\<rparr>"
  let ?c2 = "(caching 2 4)\<lparr>mPrefetcherStopped := True, mCondition := Suc (mCondition (caching 2 4))\<rparr>"
  let ?p1 = "threadFunc_exit shutting_down"
  note th = shutdown_ends_every_wait [where p = shutting_down and es = "[]" and ?p1.0 = ?p1
      and xs = "[]" and options = None]
  have run: "threadFunc [] shutting_down = Inr (Some ?p1)"
    by (simp add: shutting_down_def)
  have len: "length (mSources shutting_down) = 3" by (simp add: shutting_down_def)
  from th [where c = ?c0 and ?c1.0 = ?c0] run len
  have ex: "mThreadExited ?p1" and n: "length (mSources ?p1) = 3"
    and e0: "mSources ?p1 ! 0 = (case mSources shutting_down ! 0 of
            None \<Rightarrow> None
          | Some c \<Rightarrow> Some (c\<lparr>mPrefetcherStopped := True, mCondition := Suc (mCondition c)\<rparr>))"
    and e1: "mSources ?p1 ! 1 = (case mSources shutting_down ! 1 of
            None \<Rightarrow> None
          | Some c \<Rightarrow> Some (c\<lparr>mPrefetcherStopped := True, mCondition := Suc (mCondition c)\<rparr>))"
    and e2: "mSources ?p1 ! 2 = (case mSources shutting_down ! 2 of
            None \<Rightarrow> None
          | Some c \<Rightarrow> Some (c\<lparr>mPrefetcherStopped := True, mCondition := Suc (mCondition c)\<rparr>))"
    by simp_all
  have srcs: "mSources ?p1 = [Some ?c0, None, Some ?c2]"
  proof -
    have "mSources shutting_down ! 0 = Some ?n" "mSources shutting_down ! 1 = None"
      "mSources shutting_down ! 2 = Some (caching 2 4)"
      by (simp_all add: shutting_down_def)
    with e0 e1 e2 have "mSources ?p1 ! 0 = Some ?c0" "mSources ?p1 ! 1 = None" "mSources ?p1 ! 2 = Some ?c2"
      by simp_all
    with list_of_three [OF n] show ?thesis by simp
  qed
  have r0: "\<exists>c. read ?c0 None = Inr (Returned ERROR_END_OF_STREAM None, c)"
    using th [where c = ?c0 and ?c1.0 = ?c0] by (simp add: PrefetchedSource_new_def)
  have "case read ?c2 None of
            Inl f \<Rightarrow> 2 \<le> length [copy_of (sample 4)] \<and>
               (timestamp (hd [copy_of (sample 4)]) = None \<or> timestamp (last [copy_of (sample 4)]) = None)
          | Inr (r, c2) \<Rightarrow> r = Returned OK (Some (copy_of (sample 0))) \<and> mCachedBuffers c2 = [copy_of (sample 4)]"
    using th [where c = ?c2 and ?c1.0 = ?c2 and b = "copy_of (sample 0)" and bs = "[copy_of (sample 4)]"]
    by (simp add: caching_def)
  then have r2: "\<exists>c. read ?c2 None = Inr (Returned OK (Some (copy_of (sample 0))), c) \<and>
           mCachedBuffers c = [copy_of (sample 4)]"
    by (cases "read ?c2 None") auto
  have "mCachedBuffers ?c0 = [] \<and> mCondition ?c0 = 1" by (simp add: PrefetchedSource_new_def)
  with run ex srcs r0 r2 show ?thesis by blast
qed

end
